theory Spec2Isabelle
  imports Main "HOL-Library.Sublist"
begin

section \<open>Python strings\<close>

text \<open>
  A Python \<open>str\<close> is a sequence of Unicode code points, and \<open>len\<close>, slicing, \<open>in\<close>
  and the \<open>re\<close> module all work on code points. A string is therefore modelled as the
  list of its code points; \<open>cps\<close> turns an ASCII literal into such a list. The two
  characters outside ASCII that \<open>prosody.py\<close> writes in its literals are the right single
  quotation mark U+2019 (the curly apostrophe) and the horizontal ellipsis U+2026.
\<close>

type_synonym str = "nat list"

definition cps :: "string \<Rightarrow> str" where
  "cps s = map of_char s"

definition RSQUO :: nat where
  "RSQUO = 8217"

definition ELLIPSIS :: nat where
  "ELLIPSIS = 8230"

text \<open>
  Whitespace as \<open>str.strip()\<close>, \<open>str.lstrip()\<close> and the pattern \<open>\s\<close> of a \<open>str\<close>
  regular expression see it: the code points for which CPython's \<open>Py_UNICODE_ISSPACE\<close>
  holds (U+0009..U+000D, U+001C..U+0020, U+0085, U+00A0, U+1680, U+2000..U+200A, U+2028,
  U+2029, U+202F, U+205F, U+3000).
\<close>

definition is_space :: "nat \<Rightarrow> bool" where
  "is_space c \<longleftrightarrow>
     (9 \<le> c \<and> c \<le> 13) \<or> (28 \<le> c \<and> c \<le> 32) \<or> c = 133 \<or> c = 160 \<or> c = 5760 \<or>
     (8192 \<le> c \<and> c \<le> 8202) \<or> c = 8232 \<or> c = 8233 \<or> c = 8239 \<or> c = 8287 \<or> c = 12288"

definition lstrip :: "str \<Rightarrow> str" where
  "lstrip s = dropWhile is_space s"

definition rstrip :: "str \<Rightarrow> str" where
  "rstrip s = rev (dropWhile is_space (rev s))"

definition strip :: "str \<Rightarrow> str" where
  "strip s = rstrip (lstrip s)"

definition endswith :: "str \<Rightarrow> str \<Rightarrow> bool" where
  "endswith s x \<longleftrightarrow> suffix x s"

text \<open>
  \<open>str.lower()\<close> maps the string code point by code point. On ASCII it turns \<open>A\<close>..\<open>Z\<close>
  into \<open>a\<close>..\<open>z\<close> and leaves everything else alone. The lowercase mapping of a code point
  outside ASCII comes from the interpreter's Unicode database, which is not part of the
  repository; it may yield several code points and, for U+03A3, depends on the neighbouring
  code points. That table is a parameter of the model: it receives the code points before
  the position, the code point itself and the code points after it.
\<close>

type_synonym lower_table = "str \<Rightarrow> nat \<Rightarrow> str \<Rightarrow> str"

definition lower_cp :: "lower_table \<Rightarrow> str \<Rightarrow> nat \<Rightarrow> str \<Rightarrow> str" where
  "lower_cp L pre c post =
     (if c < 128 then [if 65 \<le> c \<and> c \<le> 90 then c + 32 else c] else L pre c post)"

fun lower_from :: "lower_table \<Rightarrow> str \<Rightarrow> str \<Rightarrow> str" where
  "lower_from L pre [] = []"
| "lower_from L pre (c # post) = lower_cp L pre c post @ lower_from L (pre @ [c]) post"

definition lower :: "lower_table \<Rightarrow> str \<Rightarrow> str" where
  "lower L s = lower_from L [] s"

text \<open>
  The table with no case mapping at all. It agrees with the interpreter's on every code
  point that has no lowercase form, among them U+2019 and U+2026, and is used wherever a
  concrete input is evaluated.
\<close>

definition uncased :: lower_table where
  "uncased pre c post = [c]"

text \<open>\<open>any(k in t for k in keywords)\<close>: some keyword is a contiguous part of \<open>t\<close>.\<close>

definition any_in :: "str list \<Rightarrow> str \<Rightarrow> bool" where
  "any_in keywords t \<longleftrightarrow> list_ex (\<lambda>k. sublist k t) keywords"

section \<open>Tone detection\<close>

definition TONE_EXCITED :: str where
  "TONE_EXCITED = cps ''excited''"

definition TONE_NEUTRAL :: str where
  "TONE_NEUTRAL = cps ''neutral''"

definition TONE_HAPPY :: str where
  "TONE_HAPPY = cps ''happy''"

definition TONE_SYMPATHETIC :: str where
  "TONE_SYMPATHETIC = cps ''sympathetic''"

definition TONE_BUMMED :: str where
  "TONE_BUMMED = cps ''bummed''"

definition TONE_REASSURING :: str where
  "TONE_REASSURING = cps ''reassuring''"

definition TONE_ENCOURAGING :: str where
  "TONE_ENCOURAGING = cps ''encouraging''"

definition TONE_PLAYFUL :: str where
  "TONE_PLAYFUL = cps ''playful''"

definition TONE_INTRIGUED :: str where
  "TONE_INTRIGUED = cps ''intrigued''"

definition TONE_CAUTION :: str where
  "TONE_CAUTION = cps ''caution''"

definition sad_keywords :: "str list" where
  "sad_keywords =
     [cps ''i'm sorry'', cps ''i am sorry'', cps ''that sounds really hard'',
      cps ''that sounds tough'', cps ''i know this is hard'',
      cps ''i know this is tough'', cps ''i can see why'', cps ''i understand this is'',
      cps ''it makes sense you feel'', cps ''i get why you feel'']"

definition bummed_keywords :: "str list" where
  "bummed_keywords =
     [cps ''that really sucks'', cps ''that sucks'', cps ''that's rough'',
      cps ''that'' @ RSQUO # cps ''s rough'',
      cps ''that'' @ RSQUO # cps ''s not fair'', cps ''that is not fair'']"

definition reassuring_keywords :: "str list" where
  "reassuring_keywords =
     [cps ''don't worry'', cps ''do not worry'',
      cps ''you're not alone'', cps ''you are not alone'',
      cps ''it's okay to'', cps ''it'' @ RSQUO # cps ''s okay to'',
      cps ''it's ok to'', cps ''it'' @ RSQUO # cps ''s ok to'',
      cps ''it's understandable'', cps ''it'' @ RSQUO # cps ''s understandable'',
      cps ''you're doing your best'', cps ''you are doing your best'']"

definition encouraging_keywords :: "str list" where
  "encouraging_keywords =
     [cps ''you've got this'', cps ''you got this'',
      cps ''i believe in you'', cps ''i'' @ RSQUO # cps ''m proud of you'',
      cps ''i am proud of you'',
      cps ''keep going'', cps ''keep at it'',
      cps ''this is a great step'', cps ''this is a good step'',
      cps ''you'' @ RSQUO # cps ''re doing great'', cps ''you're doing great'']"

definition happy_keywords :: "str list" where
  "happy_keywords =
     [cps ''that's great'', cps ''that'' @ RSQUO # cps ''s great'',
      cps ''that's awesome'', cps ''that'' @ RSQUO # cps ''s awesome'',
      cps ''that's fantastic'', cps ''that'' @ RSQUO # cps ''s fantastic'',
      cps ''i'm glad'', cps ''i am glad'',
      cps ''i'm happy for you'', cps ''i am happy for you'',
      cps ''congratulations'', cps ''congrats'']"

definition playful_keywords :: "str list" where
  "playful_keywords =
     [cps ''haha'', cps ''lol'', cps ''just kidding'',
      cps ''couldn'' @ RSQUO # cps ''t resist'', cps ''couldn't resist'',
      cps ''little bit cheeky'', cps ''let's have some fun'',
      cps ''let'' @ RSQUO # cps ''s have some fun'']"

definition intrigued_keywords :: "str list" where
  "intrigued_keywords =
     [cps ''i'm curious'', cps ''i am curious'',
      cps ''interesting question'', cps ''that's interesting'',
      cps ''that'' @ RSQUO # cps ''s interesting'',
      cps ''let's unpack'', cps ''let'' @ RSQUO # cps ''s unpack'',
      cps ''i wonder'', cps ''makes me wonder'']"

definition caution_keywords :: "str list" where
  "caution_keywords =
     [cps ''be careful'', cps ''you'' @ RSQUO # cps ''ll want to be careful'',
      cps ''you will want to be careful'',
      cps ''this might be risky'', cps ''this could be risky'',
      cps ''i'' @ RSQUO # cps ''d strongly recommend'', cps ''i would strongly recommend'',
      cps ''i'' @ RSQUO # cps ''d avoid'', cps ''i would avoid'',
      cps ''it'' @ RSQUO # cps ''s important to'', cps ''it's important to'']"

definition excited_keywords :: "str list" where
  "excited_keywords =
     [cps ''this is huge'', cps ''i'm so excited'', cps ''i am so excited'',
      cps ''this is amazing'', cps ''i'm really excited'', cps ''i am really excited'',
      cps ''this is incredible'', cps ''that'' @ RSQUO # cps ''s incredible'',
      cps ''that's incredible'',
      cps ''this is insane'', cps ''that's insane'', cps ''that'' @ RSQUO # cps ''s insane'']"

definition detect_tone :: "lower_table \<Rightarrow> str \<Rightarrow> str" where
  "detect_tone L text =
     (if text = [] then TONE_NEUTRAL
      else let t = lower L text in
        if any_in sad_keywords t then TONE_SYMPATHETIC
        else if any_in bummed_keywords t then TONE_BUMMED
        else if any_in reassuring_keywords t then TONE_REASSURING
        else if any_in encouraging_keywords t then TONE_ENCOURAGING
        else if any_in happy_keywords t then TONE_HAPPY
        else if any_in playful_keywords t then TONE_PLAYFUL
        else if any_in intrigued_keywords t then TONE_INTRIGUED
        else if any_in caution_keywords t then TONE_CAUTION
        else if any_in excited_keywords t then TONE_EXCITED
        else TONE_NEUTRAL)"

section \<open>Sentence splitting\<close>

text \<open>
  \<open>re.split(r"([.?!])", text)\<close>: the pattern is one capturing group around a single
  delimiter, so the result alternates the text between two delimiters (possibly empty) and
  the delimiter itself, and ends with the text after the last delimiter.
\<close>

definition is_delim :: "nat \<Rightarrow> bool" where
  "is_delim c \<longleftrightarrow> c \<in> set (cps ''.?!'')"

fun re_split_from :: "str \<Rightarrow> str \<Rightarrow> str list" where
  "re_split_from piece [] = [piece]"
| "re_split_from piece (c # cs) =
     (if is_delim c then piece # [c] # re_split_from [] cs
      else re_split_from (piece @ [c]) cs)"

definition re_split :: "str \<Rightarrow> str list" where
  "re_split text = re_split_from [] text"

text \<open>The \<open>for part in parts\<close> loop, with \<open>current\<close> and \<open>sentences\<close> as its state.\<close>

fun split_loop :: "str list \<Rightarrow> str \<Rightarrow> str list \<Rightarrow> str \<times> str list" where
  "split_loop [] current sentences = (current, sentences)"
| "split_loop (part # parts) current sentences =
     (if part = [] then split_loop parts current sentences
      else if sublist part (cps ''.?!'') then
        split_loop parts [] (sentences @ [strip (current @ part)])
      else if current \<noteq> [] then split_loop parts (current @ part) sentences
      else split_loop parts part sentences)"

definition split_sentences :: "str \<Rightarrow> str list" where
  "split_sentences text =
     (let parts = re_split text;
          (current, sentences) = split_loop parts [] [];
          sentences = (if strip current \<noteq> [] then sentences @ [strip current] else sentences)
      in if sentences = [] then [strip text] else sentences)"

section \<open>Softening a leading name\<close>

text \<open>
  \<open>re.match(r"^([A-Z][a-z]{1,20})([, ]+)(.*)$", s)\<close>. The quantifiers are greedy and the
  matcher backtracks, but giving back a letter of \<open>[a-z]{1,20}\<close> leaves a lowercase letter
  where \<open>[, ]+\<close> needs a separator, and giving back a separator of \<open>[, ]+\<close> does not
  move the place where \<open>(.*)$\<close> has to end. So there is a match exactly when the string
  is an uppercase letter, then one to twenty lowercase letters, then at least one
  separator, and the rest has no line feed except possibly as its very last code point
  (\<open>.\<close> does not match a line feed, and \<open>$\<close> matches at the end of the string or just
  before a line feed that ends it). The groups are the name, the whole run of separators
  and the rest up to that line feed.
\<close>

definition is_upper_AZ :: "nat \<Rightarrow> bool" where
  "is_upper_AZ c \<longleftrightarrow> 65 \<le> c \<and> c \<le> 90"

definition is_lower_az :: "nat \<Rightarrow> bool" where
  "is_lower_az c \<longleftrightarrow> 97 \<le> c \<and> c \<le> 122"

definition is_sep :: "nat \<Rightarrow> bool" where
  "is_sep c \<longleftrightarrow> c \<in> set (cps '', '')"

definition match_name :: "str \<Rightarrow> (str \<times> str \<times> str) option" where
  "match_name s =
     (case s of
        [] \<Rightarrow> None
      | c # cs \<Rightarrow>
          if \<not> is_upper_AZ c then None
          else
            let letters = takeWhile is_lower_az cs;
                r1 = dropWhile is_lower_az cs;
                sep = takeWhile is_sep r1;
                r2 = dropWhile is_sep r1;
                rest = takeWhile (\<lambda>x. x \<noteq> 10) r2;
                r3 = dropWhile (\<lambda>x. x \<noteq> 10) r2
            in if letters = [] \<or> 20 < length letters \<or> sep = [] then None
               else if r3 = [] \<or> r3 = [10] then Some (c # letters, sep, rest)
               else None)"

definition soften_first :: "str \<Rightarrow> str" where
  "soften_first s =
     (case match_name s of
        None \<Rightarrow> s
      | Some (name, sep, rest) \<Rightarrow>
          let rest = lstrip rest
          in if rest \<noteq> [] then name @ cps ''... '' @ rest else name @ cps ''...'')"

fun soften_from :: "nat \<Rightarrow> str list \<Rightarrow> str list" where
  "soften_from idx [] = []"
| "soften_from idx (s # ss) = (if idx = 0 then soften_first s else s) # soften_from (Suc idx) ss"

definition soften_existing_name :: "str list \<Rightarrow> str \<Rightarrow> str list" where
  "soften_existing_name sentences tone =
     (if tone \<noteq> TONE_SYMPATHETIC then sentences else soften_from 0 sentences)"

section \<open>Shaping for speech\<close>

text \<open>\<open>sep.join(items)\<close>.\<close>

fun join :: "str \<Rightarrow> str list \<Rightarrow> str" where
  "join sep [] = []"
| "join sep [x] = x"
| "join sep (x # y # ys) = x @ sep @ join sep (y # ys)"

definition loaded_words :: "str list" where
  "loaded_words =
     [cps ''sorry'', cps ''hard'', cps ''tough'', cps ''understand'', cps ''alone'',
      cps ''worried'']"

text \<open>
  The sympathetic and bummed branch: \<open>for i, s in enumerate(sentences)\<close>. The function
  returns what the loop appends to \<open>shaped_lines\<close> from index \<open>i\<close> on.
\<close>

definition add_ellipsis :: "lower_table \<Rightarrow> str \<Rightarrow> str" where
  "add_ellipsis L s =
     (let lower_s = lower L s
      in if any_in loaded_words lower_s then
           (if \<not> endswith s (cps ''...'') then s @ cps ''...'' else s)
         else s)"

fun sympathetic_lines :: "lower_table \<Rightarrow> nat \<Rightarrow> str list \<Rightarrow> str list" where
  "sympathetic_lines L i [] = []"
| "sympathetic_lines L i (s # ss) =
     add_ellipsis L s # (if i mod 2 = 1 then [[]] else []) @ sympathetic_lines L (Suc i) ss"

text \<open>
  The buffering loop of the upbeat and the neutral branch, with \<open>buffer\<close> and
  \<open>shaped_lines\<close> as its state; the two branches differ in the length limit only.
\<close>

fun buffer_loop :: "nat \<Rightarrow> str list \<Rightarrow> str list \<Rightarrow> str list \<Rightarrow> str list \<times> str list" where
  "buffer_loop limit [] buffer shaped_lines = (buffer, shaped_lines)"
| "buffer_loop limit (s # ss) buffer shaped_lines =
     (let buffer = buffer @ [s];
          joined = join (cps '' '') buffer
      in if limit < length joined then buffer_loop limit ss [] (shaped_lines @ [joined])
         else buffer_loop limit ss buffer shaped_lines)"

definition buffered_lines :: "nat \<Rightarrow> str list \<Rightarrow> str list" where
  "buffered_lines limit sentences =
     (let (buffer, shaped_lines) = buffer_loop limit sentences [] []
      in if buffer \<noteq> [] then shaped_lines @ [join (cps '' '') buffer] else shaped_lines)"

text \<open>
  Reading and writing \<open>shaped_lines[-1]\<close> raises \<open>IndexError\<close> on an empty list; the
  operations are modelled with that failure.
\<close>

datatype error = IndexError

definition get_last :: "'a list \<Rightarrow> error + 'a" where
  "get_last xs = (if xs = [] then Inl IndexError else Inr (last xs))"

definition set_last :: "'a list \<Rightarrow> 'a \<Rightarrow> error + 'a list" where
  "set_last xs v = (if xs = [] then Inl IndexError else Inr (butlast xs @ [v]))"

definition lift_line :: "str \<Rightarrow> str \<Rightarrow> str" where
  "lift_line tone last0 =
     (if tone \<in> set [TONE_ENCOURAGING, TONE_REASSURING, TONE_PLAYFUL] then
        (if \<not> (endswith last0 (cps ''!'') \<or> endswith last0 [ELLIPSIS] \<or>
                endswith last0 (cps ''...''))
         then last0 @ cps ''...'' else last0)
      else if tone \<in> set [TONE_HAPPY, TONE_EXCITED] then
        (if \<not> endswith last0 (cps ''!'') then last0 @ cps ''!'' else last0)
      else last0)"

definition closing_lift :: "str \<Rightarrow> str list \<Rightarrow> error + str list" where
  "closing_lift tone shaped_lines =
     (if shaped_lines \<noteq> [] then
        (case get_last shaped_lines of
           Inl e \<Rightarrow> Inl e
         | Inr last0 \<Rightarrow> set_last shaped_lines (lift_line tone last0))
      else Inr shaped_lines)"

fun caution_lines :: "str list \<Rightarrow> str list" where
  "caution_lines [] = []"
| "caution_lines (s # ss) = s # [] # caution_lines ss"

definition shape_lines :: "lower_table \<Rightarrow> str \<Rightarrow> str list \<Rightarrow> error + str list" where
  "shape_lines L tone sentences =
     (if tone \<in> set [TONE_SYMPATHETIC, TONE_BUMMED] then
        Inr (sympathetic_lines L 0 sentences)
      else if tone \<in> set [TONE_ENCOURAGING, TONE_HAPPY, TONE_REASSURING, TONE_PLAYFUL,
                           TONE_EXCITED] then
        closing_lift tone (buffered_lines 80 sentences)
      else if tone = TONE_CAUTION then Inr (caution_lines sentences)
      else Inr (buffered_lines 100 sentences))"

text \<open>
  \<open>out.replace("...", "\<dots>")\<close> with the ellipsis character: the occurrences are found from
  the left and do not overlap.
\<close>

fun replace_dots :: "str \<Rightarrow> str" where
  "replace_dots (a # b # c # cs) =
     (if a = 46 \<and> b = 46 \<and> c = 46 then ELLIPSIS # replace_dots cs
      else a # replace_dots (b # c # cs))"
| "replace_dots cs = cs"

text \<open>
  \<open>re.sub(r"\s+\.", ".", out)\<close>: at a whitespace character the greedy \<open>\s+\<close> takes the
  whole run of whitespace; the match succeeds when a period follows the run (giving back
  whitespace cannot help, a whitespace character would follow), and the run with its
  period is replaced by a period. Otherwise the character is copied and the search goes on
  one position further.
\<close>

function sub_space_dot :: "str \<Rightarrow> str" where
  "sub_space_dot [] = []"
| "sub_space_dot (c # cs) =
     (if is_space c then
        (case dropWhile is_space cs of
           [] \<Rightarrow> c # sub_space_dot cs
         | d # ds \<Rightarrow> if d = 46 then 46 # sub_space_dot ds else c # sub_space_dot cs)
      else c # sub_space_dot cs)"
  by pat_completeness auto
termination
proof (relation "measure length")
  fix c :: nat and cs d ds
  assume "dropWhile is_space cs = d # ds"
  then have "length (d # ds) \<le> length cs"
    by (metis length_dropWhile_le)
  then show "(ds, c # cs) \<in> measure length"
    by simp
qed auto

definition normalize :: "str \<Rightarrow> str" where
  "normalize out = sub_space_dot (replace_dots out)"

definition blank :: "str \<Rightarrow> bool" where
  "blank line \<longleftrightarrow> strip line = []"

definition format_for_tts :: "lower_table \<Rightarrow> str \<Rightarrow> error + str" where
  "format_for_tts L text0 =
     (let text = strip text0
      in if text = [] then Inr text
         else
           let tone = detect_tone L text;
               sentences = split_sentences text;
               sentences = soften_existing_name sentences tone
           in case shape_lines L tone sentences of
                Inl e \<Rightarrow> Inl e
              | Inr shaped_lines \<Rightarrow>
                  let shaped_lines = dropWhile blank shaped_lines;
                      shaped_lines = rev (dropWhile blank (rev shaped_lines));
                      out = (if shaped_lines \<noteq> [] then join [10, 10] shaped_lines else text)
                  in Inr (normalize out))"

section \<open>Notions used in the statements\<close>

text \<open>The ten labels that the docstring of \<open>detect_tone\<close> lists.\<close>

definition tones :: "str list" where
  "tones = map cps [''excited'', ''neutral'', ''happy'', ''sympathetic'', ''bummed'',
     ''reassuring'', ''encouraging'', ''playful'', ''intrigued'', ''caution'']"

text \<open>A string of ASCII code points without capital letters: lowercasing keeps it.\<close>

definition plain :: "str \<Rightarrow> bool" where
  "plain k \<longleftrightarrow> list_all (\<lambda>c. c < 128 \<and> \<not> (65 \<le> c \<and> c \<le> 90)) k"

text \<open>
  The string starts with a capitalised word, that is, an uppercase letter and then at least
  one lowercase letter, and a separator (a comma or a space) comes right after the word.
\<close>

definition starts_with_name :: "str \<Rightarrow> bool" where
  "starts_with_name s \<longleftrightarrow>
     (case s of
        [] \<Rightarrow> False
      | c # cs \<Rightarrow>
          is_upper_AZ c \<and> takeWhile is_lower_az cs \<noteq> [] \<and>
          (case dropWhile is_lower_az cs of [] \<Rightarrow> False | d # ds \<Rightarrow> is_sep d))"

text \<open>Somewhere in the string a whitespace character stands right before a period.\<close>

fun space_before_dot :: "str \<Rightarrow> bool" where
  "space_before_dot (a # b # cs) \<longleftrightarrow> (is_space a \<and> b = 46) \<or> space_before_dot (b # cs)"
| "space_before_dot cs \<longleftrightarrow> False"


text \<open>
  Segmentation in the words of the specification: the text is cut after every delimiter.
  \<open>chunks\<close> are the pieces that a delimiter terminates, each with its delimiter as last
  code point, in the order of the text; \<open>trailing\<close> is what follows the last delimiter.
  The first argument of the auxiliary functions is the piece that is being read.
\<close>

fun chunks_from :: "str \<Rightarrow> str \<Rightarrow> str list" where
  "chunks_from piece [] = []"
| "chunks_from piece (c # cs) =
     (if is_delim c then (piece @ [c]) # chunks_from [] cs else chunks_from (piece @ [c]) cs)"

fun trailing_from :: "str \<Rightarrow> str \<Rightarrow> str" where
  "trailing_from piece [] = piece"
| "trailing_from piece (c # cs) =
     (if is_delim c then trailing_from [] cs else trailing_from (piece @ [c]) cs)"

definition chunks :: "str \<Rightarrow> str list" where
  "chunks s = chunks_from [] s"

definition trailing :: "str \<Rightarrow> str" where
  "trailing s = trailing_from [] s"

text \<open>
  The same phrase written with the other apostrophe, and the phrases of a list whose
  other spelling is not in the list.
\<close>

definition other_spelling :: "str \<Rightarrow> str" where
  "other_spelling k = map (\<lambda>c. if c = 39 then RSQUO else if c = RSQUO then 39 else c) k"

definition missing_variant :: "str list \<Rightarrow> str list" where
  "missing_variant keywords =
     filter (\<lambda>k. other_spelling k \<noteq> k \<and> other_spelling k \<notin> set keywords) keywords"

section \<open>Evaluation rules\<close>

lemmas tone_defs = TONE_EXCITED_def TONE_NEUTRAL_def TONE_HAPPY_def TONE_SYMPATHETIC_def
  TONE_BUMMED_def TONE_REASSURING_def TONE_ENCOURAGING_def TONE_PLAYFUL_def
  TONE_INTRIGUED_def TONE_CAUTION_def

lemmas keyword_defs = sad_keywords_def bummed_keywords_def reassuring_keywords_def
  encouraging_keywords_def happy_keywords_def playful_keywords_def intrigued_keywords_def
  caution_keywords_def excited_keywords_def

lemmas eval_tone = detect_tone_def lower_def lower_cp_def cps_def any_in_def keyword_defs
  RSQUO_def sublist_code tone_defs uncased_def

lemma any_in_iff: "any_in ks t \<longleftrightarrow> (\<exists>k\<in>set ks. sublist k t)"
  by (simp add: any_in_def list_ex_iff)

lemmas eval_str = cps_def strip_def lstrip_def rstrip_def is_space_def endswith_def
  suffix_to_prefix sublist_code ELLIPSIS_def RSQUO_def lower_def lower_cp_def any_in_def

lemma get_last_eq: "xs \<noteq> [] \<Longrightarrow> get_last xs = Inr (last xs)"
  by (simp add: get_last_def)

lemma set_last_eq: "xs \<noteq> [] \<Longrightarrow> set_last xs v = Inr (butlast xs @ [v])"
  by (simp add: set_last_def)

lemma closing_lift_eq:
  "closing_lift tone ls = Inr (if ls = [] then [] else butlast ls @ [lift_line tone (last ls)])"
  by (simp add: closing_lift_def get_last_eq set_last_eq)

lemma shape_lines_total: "\<exists>ls. shape_lines L tone sentences = Inr ls"
  by (simp add: shape_lines_def closing_lift_eq)

lemma all_dropWhile_Nil: "(\<forall>x\<in>set (dropWhile P xs). P x) \<longleftrightarrow> dropWhile P xs = []"
proof
  assume a: "\<forall>x\<in>set (dropWhile P xs). P x"
  show "dropWhile P xs = []"
  proof (rule ccontr)
    assume n: "dropWhile P xs \<noteq> []"
    then have "\<not> P (hd (dropWhile P xs))" by (rule hd_dropWhile)
    moreover have "hd (dropWhile P xs) \<in> set (dropWhile P xs)" using n by simp
    ultimately show False using a by blast
  qed
next
  assume "dropWhile P xs = []"
  then show "\<forall>x\<in>set (dropWhile P xs). P x" by (simp del: dropWhile_eq_Nil_conv)
qed

lemma strip_Nil_iff: "strip s = [] \<longleftrightarrow> list_all is_space s"
  by (simp add: strip_def lstrip_def rstrip_def dropWhile_eq_Nil_conv all_dropWhile_Nil
      list_all_iff)

lemmas eval_shape = format_for_tts_def Let_def split_sentences_def re_split_def is_delim_def
  soften_existing_name_def soften_first_def match_name_def is_upper_AZ_def is_lower_az_def
  is_sep_def shape_lines_def add_ellipsis_def loaded_words_def buffered_lines_def
  closing_lift_eq lift_line_def normalize_def blank_def

lemma strip_strip: "strip (strip s) = strip s"
proof -
  let ?d = "dropWhile is_space s"
  have a: "dropWhile is_space (rev (dropWhile is_space (rev ?d))) = rev (dropWhile is_space (rev ?d))"
  proof (cases "rev (dropWhile is_space (rev ?d)) = []")
    case True
    show ?thesis by (simp only: True dropWhile.simps)
  next
    case False
    then have ne: "?d \<noteq> []" by (auto simp del: dropWhile_eq_Nil_conv)
    then have "\<not> is_space (hd ?d)" by (rule hd_dropWhile)
    moreover have "hd (rev (dropWhile is_space (rev ?d))) = hd ?d"
    proof -
      obtain ys where ys: "rev ?d = takeWhile is_space (rev ?d) @ dropWhile is_space (rev ?d)"
        by simp
      have "?d = rev (dropWhile is_space (rev ?d)) @ rev (takeWhile is_space (rev ?d))"
        by (metis rev_append rev_rev_ident takeWhile_dropWhile_id)
      then show ?thesis using False by (metis hd_append2)
    qed
    ultimately have "\<not> is_space (hd (rev (dropWhile is_space (rev ?d))))" by simp
    then show ?thesis using False by (cases "rev (dropWhile is_space (rev ?d))") auto
  qed
  have b: "dropWhile is_space (dropWhile is_space (rev ?d)) = dropWhile is_space (rev ?d)"
    by (simp add: dropWhile_idem)
  show ?thesis
    unfolding strip_def lstrip_def rstrip_def by (simp add: a b)
qed

lemma format_for_tts_strip: "format_for_tts L (strip s) = format_for_tts L s"
  by (simp add: format_for_tts_def strip_strip)

section \<open>The priority of the sympathetic group\<close>

lemma lower_from_append:
  "\<exists>xs. lower_from L pre (a @ b) = xs @ lower_from L (pre @ a) b"
proof (induction a arbitrary: pre)
  case Nil
  show ?case by simp
next
  case (Cons c a)
  from Cons [of "pre @ [c]"] obtain xs
    where "lower_from L (pre @ [c]) (a @ b) = xs @ lower_from L (pre @ c # a) b"
    by auto
  then show ?case by simp
qed

lemma lower_from_plain_append:
  "plain k \<Longrightarrow> lower_from L pre (k @ b) = k @ lower_from L (pre @ k) b"
  by (induction k arbitrary: pre) (simp_all add: plain_def lower_cp_def)

lemma sublist_lower:
  assumes "plain k" and "sublist k text"
  shows "sublist k (lower L text)"
proof -
  from assms(2) obtain ps ss where split: "text = ps @ k @ ss"
    by (auto simp: sublist_def)
  obtain xs where "lower_from L [] (ps @ k @ ss) = xs @ lower_from L ps (k @ ss)"
    using lower_from_append [of L "[]" ps "k @ ss"] by auto
  then have "lower L text = xs @ k @ lower_from L (ps @ k) ss"
    by (simp add: split lower_def lower_from_plain_append [OF assms(1)])
  then show ?thesis
    by (metis sublist_appendI)
qed

lemma sad_keywords_plain: "list_all plain sad_keywords"
  by (simp add: sad_keywords_def plain_def cps_def)

text \<open>
  C1. Priority of the sympathetic group: whenever a phrase of the sympathetic group occurs
  in the input (as written in the list, or after lowercasing), \<open>detect_tone\<close> answers
  sympathetic, whatever phrases of the later groups the input also contains.
\<close>

theorem sympathetic_priority:
  assumes "k \<in> set sad_keywords"
    and "sublist k text \<or> sublist k (lower L text)"
  shows "detect_tone L text = TONE_SYMPATHETIC"
proof -
  have "plain k"
    using assms(1) sad_keywords_plain by (simp add: list_all_iff)
  then have low: "sublist k (lower L text)"
    using assms(2) sublist_lower by blast
  then have "any_in sad_keywords (lower L text)"
    using assms(1) by (auto simp: any_in_iff)
  moreover have "text \<noteq> []"
  proof
    assume "text = []"
    then have "k = []" using low by (simp add: lower_def)
    then show False using assms(1) by (simp add: sad_keywords_def cps_def)
  qed
  ultimately show ?thesis
    by (simp add: detect_tone_def)
qed

lemma sorry_in_great_news: "sublist (cps ''i'm sorry'') (lower L (cps ''I'm sorry, that's great news''))"
  by (simp add: lower_def lower_cp_def cps_def sublist_code)

theorem sympathetic_priority_witness:
  "any_in happy_keywords (lower uncased (cps ''I'm sorry, that's great news'')) \<and>
   detect_tone uncased (cps ''I'm sorry, that's great news'') = TONE_SYMPATHETIC"
proof -
  have k: "cps ''i'm sorry'' \<in> set sad_keywords"
    by (simp add: sad_keywords_def)
  have h: "any_in happy_keywords (lower uncased (cps ''I'm sorry, that's great news''))"
    by (simp add: lower_def lower_cp_def cps_def any_in_def happy_keywords_def sublist_code)
  show ?thesis
    using h sympathetic_priority [OF k disjI2 [OF sorry_in_great_news]] by blast
qed

section \<open>The range of the tone detection\<close>

lemma reach_sympathetic: "detect_tone L (cps ''i am sorry'') = TONE_SYMPATHETIC"
  by (simp add: eval_tone)
lemma reach_bummed: "detect_tone L (cps ''that sucks'') = TONE_BUMMED"
  by (simp add: eval_tone)
lemma reach_reassuring: "detect_tone L (cps ''do not worry'') = TONE_REASSURING"
  by (simp add: eval_tone)
lemma reach_encouraging: "detect_tone L (cps ''keep going'') = TONE_ENCOURAGING"
  by (simp add: eval_tone)
lemma reach_happy: "detect_tone L (cps ''congrats'') = TONE_HAPPY"
  by (simp add: eval_tone)
lemma reach_playful: "detect_tone L (cps ''lol'') = TONE_PLAYFUL"
  by (simp add: eval_tone)
lemma reach_intrigued: "detect_tone L (cps ''i wonder'') = TONE_INTRIGUED"
  by (simp add: eval_tone)
lemma reach_caution: "detect_tone L (cps ''be careful'') = TONE_CAUTION"
  by (simp add: eval_tone)
lemma reach_excited: "detect_tone L (cps ''this is huge'') = TONE_EXCITED"
  by (simp add: eval_tone)
lemma reach_neutral: "detect_tone L (cps ''hello'') = TONE_NEUTRAL"
  by (simp add: eval_tone)

lemma tones_eq:
  "set tones = {TONE_EXCITED, TONE_NEUTRAL, TONE_HAPPY, TONE_SYMPATHETIC, TONE_BUMMED,
     TONE_REASSURING, TONE_ENCOURAGING, TONE_PLAYFUL, TONE_INTRIGUED, TONE_CAUTION}"
  by (simp add: tones_def tone_defs)

lemma detect_tone_in_tones: "detect_tone L text \<in> set tones"
  unfolding tones_eq by (simp add: detect_tone_def Let_def)

lemma tones_reached: "t \<in> set tones \<Longrightarrow> t \<in> range (detect_tone L)"
  unfolding tones_eq
  using reach_sympathetic [of L] reach_bummed [of L] reach_reassuring [of L]
    reach_encouraging [of L] reach_happy [of L] reach_playful [of L] reach_intrigued [of L]
    reach_caution [of L] reach_excited [of L] reach_neutral [of L]
  by (metis insertE empty_iff rangeI)

lemma tones_distinct: "distinct tones \<and> length tones = 10"
  by (simp add: tones_def cps_def)

text \<open>
  C2. \<open>detect_tone\<close> is defined on every string and its values are exactly the ten
  labels: every result is one of them and each of them is the result for some input. The
  empty string gives neutral, and so does every input in whose lowercased form no keyword
  of any of the nine groups occurs.
\<close>

theorem detect_tone_range:
  "range (detect_tone L) = set tones \<and> distinct tones \<and> length tones = 10 \<and>
   detect_tone L [] = TONE_NEUTRAL \<and>
   (\<not> any_in sad_keywords (lower L text) \<and> \<not> any_in bummed_keywords (lower L text) \<and>
    \<not> any_in reassuring_keywords (lower L text) \<and>
    \<not> any_in encouraging_keywords (lower L text) \<and>
    \<not> any_in happy_keywords (lower L text) \<and> \<not> any_in playful_keywords (lower L text) \<and>
    \<not> any_in intrigued_keywords (lower L text) \<and>
    \<not> any_in caution_keywords (lower L text) \<and> \<not> any_in excited_keywords (lower L text)
    \<longrightarrow> detect_tone L text = TONE_NEUTRAL)"
proof -
  have "range (detect_tone L) = set tones"
    using detect_tone_in_tones tones_reached by blast
  moreover have "detect_tone L [] = TONE_NEUTRAL"
    by (simp add: detect_tone_def)
  ultimately show ?thesis
    using tones_distinct by (simp add: detect_tone_def)
qed

lemma hello_no_match:
  "\<not> any_in sad_keywords (lower uncased (cps ''hello'')) \<and>
   \<not> any_in bummed_keywords (lower uncased (cps ''hello'')) \<and>
   \<not> any_in reassuring_keywords (lower uncased (cps ''hello'')) \<and>
   \<not> any_in encouraging_keywords (lower uncased (cps ''hello'')) \<and>
   \<not> any_in happy_keywords (lower uncased (cps ''hello'')) \<and>
   \<not> any_in playful_keywords (lower uncased (cps ''hello'')) \<and>
   \<not> any_in intrigued_keywords (lower uncased (cps ''hello'')) \<and>
   \<not> any_in caution_keywords (lower uncased (cps ''hello'')) \<and>
   \<not> any_in excited_keywords (lower uncased (cps ''hello''))"
  by (simp add: eval_tone)

theorem detect_tone_range_witness:
  "detect_tone uncased (cps ''hello'') = TONE_NEUTRAL"
  using detect_tone_range [of uncased "cps ''hello''"] hello_no_match by blast

section \<open>Totality\<close>

text \<open>
  C3. Neither operation can fail: \<open>detect_tone\<close> has a label for every string, and
  \<open>format_for_tts\<close> returns a string for every input, the reads and writes of
  \<open>shaped_lines[-1]\<close> never meeting an empty list. On an empty or whitespace-only
  input it returns the trimmed text, which is the empty string.
\<close>

theorem format_for_tts_total:
  "(\<exists>out. format_for_tts L text = Inr out) \<and>
   (list_all is_space text \<longrightarrow> strip text = [] \<and> format_for_tts L text = Inr []) \<and>
   detect_tone L text \<in> set tones"
proof -
  have "\<exists>out. format_for_tts L text = Inr out"
  proof (cases "strip text = []")
    case True
    then show ?thesis by (simp add: format_for_tts_def)
  next
    case False
    obtain ls where
      "shape_lines L (detect_tone L (strip text))
         (soften_existing_name (split_sentences (strip text)) (detect_tone L (strip text)))
       = Inr ls"
      using shape_lines_total by blast
    with False show ?thesis by (simp add: format_for_tts_def Let_def)
  qed
  moreover have "list_all is_space text \<longrightarrow> strip text = [] \<and> format_for_tts L text = Inr []"
    by (simp add: strip_Nil_iff format_for_tts_def)
  ultimately show ?thesis
    using detect_tone_in_tones by blast
qed

theorem format_for_tts_total_witness:
  "list_all is_space (cps ''   '') \<and> format_for_tts uncased (cps ''   '') = Inr []"
proof -
  have h: "list_all is_space (cps ''   '')"
    by (simp add: cps_def is_space_def)
  show ?thesis
    using h format_for_tts_total [of uncased "cps ''   ''"] by blast
qed

section \<open>Apostrophe variants\<close>

lemma caution_missing:
  "missing_variant caution_keywords =
     [cps ''you'' @ RSQUO # cps ''ll want to be careful'',
      cps ''i'' @ RSQUO # cps ''d strongly recommend'', cps ''i'' @ RSQUO # cps ''d avoid'']"
  by (simp add: missing_variant_def other_spelling_def caution_keywords_def cps_def RSQUO_def)

lemma missing_counts:
  "map (\<lambda>keywords. length (missing_variant keywords))
     [sad_keywords, bummed_keywords, reassuring_keywords, encouraging_keywords,
      happy_keywords, playful_keywords, intrigued_keywords, caution_keywords,
      excited_keywords]
   = [1, 1, 3, 2, 2, 0, 1, 3, 2]"
  by (simp add: missing_variant_def other_spelling_def keyword_defs cps_def RSQUO_def)

lemma recommend_tones:
  "detect_tone L (cps ''i'd strongly recommend a backup'') = TONE_NEUTRAL \<and>
   detect_tone uncased (cps ''i'' @ RSQUO # cps ''d strongly recommend a backup'')
     = TONE_CAUTION"
  by (simp add: eval_tone)

text \<open>
  C4. The caution list holds \<open>i'd strongly recommend\<close> with the curly apostrophe only,
  as it does two more of its phrases; in all, fifteen phrases of the nine lists lack their
  other spelling, while fifteen have both. An input with the straight apostrophe, and no
  phrase of another group, is classified neutral; the same input with the curly apostrophe
  is classified caution.
\<close>

theorem straight_apostrophe_not_caution:
  "cps ''i'd strongly recommend'' \<notin> set caution_keywords \<and>
   missing_variant caution_keywords =
     [cps ''you'' @ RSQUO # cps ''ll want to be careful'',
      cps ''i'' @ RSQUO # cps ''d strongly recommend'', cps ''i'' @ RSQUO # cps ''d avoid''] \<and>
   map (\<lambda>keywords. length (missing_variant keywords))
     [sad_keywords, bummed_keywords, reassuring_keywords, encouraging_keywords,
      happy_keywords, playful_keywords, intrigued_keywords, caution_keywords,
      excited_keywords]
   = [1, 1, 3, 2, 2, 0, 1, 3, 2] \<and>
   detect_tone L (cps ''i'd strongly recommend a backup'') = TONE_NEUTRAL \<and>
   detect_tone uncased (cps ''i'' @ RSQUO # cps ''d strongly recommend a backup'')
     = TONE_CAUTION"
proof -
  have "cps ''i'd strongly recommend'' \<notin> set caution_keywords"
    by (simp add: caution_keywords_def cps_def RSQUO_def)
  then show ?thesis
    using caution_missing missing_counts recommend_tones by blast
qed

section \<open>Lines for the sympathetic and the bummed tone\<close>

lemma sympathetic_lines_length:
  "length (sympathetic_lines L k ss) = length ss + (length ss + k mod 2) div 2"
proof (induction ss arbitrary: k)
  case Nil
  show ?case by simp
next
  case (Cons s ss)
  show ?case
  proof (cases "k mod 2 = 1")
    case True
    then have "Suc k mod 2 = 0" by presburger
    with True show ?thesis by (simp add: Cons.IH)
  next
    case False
    then have "k mod 2 = 0" "Suc k mod 2 = 1" by presburger+
    then show ?thesis by (simp add: Cons.IH)
  qed
qed

lemma sympathetic_lines_nth:
  "i < length ss \<Longrightarrow>
   sympathetic_lines L k ss ! (i + (i + k mod 2) div 2) = add_ellipsis L (ss ! i)"
proof (induction ss arbitrary: k i)
  case Nil
  then show ?case by simp
next
  case (Cons s ss)
  show ?case
  proof (cases i)
    case 0
    then show ?thesis by simp
  next
    case (Suc j)
    with Cons.prems have j: "j < length ss" by simp
    show ?thesis
    proof (cases "k mod 2 = 1")
      case True
      then have k': "Suc k mod 2 = 0" by presburger
      have idx: "i + (i + k mod 2) div 2 = Suc (Suc (j + j div 2))"
        using Suc True by simp
      show ?thesis
        using Cons.IH [OF j, of "Suc k"] True k' by (simp add: idx Suc)
    next
      case False
      then have k0: "k mod 2 = 0" and k': "Suc k mod 2 = 1" by presburger+
      have idx: "i + (i + k mod 2) div 2 = Suc (j + (j + 1) div 2)"
        using Suc k0 by simp
      show ?thesis
        using Cons.IH [OF j, of "Suc k"] k0 k' by (simp add: idx Suc)
    qed
  qed
qed

lemma sympathetic_lines_blank:
  "i < length ss \<Longrightarrow> odd (i + k) \<Longrightarrow>
   sympathetic_lines L k ss ! (Suc (i + (i + k mod 2) div 2)) = []"
proof (induction ss arbitrary: k i)
  case Nil
  then show ?case by simp
next
  case (Cons s ss)
  show ?case
  proof (cases i)
    case 0
    with Cons.prems have "k mod 2 = 1" by presburger
    with 0 show ?thesis by simp
  next
    case (Suc j)
    with Cons.prems have j: "j < length ss" and par: "odd (j + Suc k)" by simp_all
    show ?thesis
    proof (cases "k mod 2 = 1")
      case True
      then have k': "Suc k mod 2 = 0" by presburger
      have idx: "i + (i + k mod 2) div 2 = Suc (Suc (j + j div 2))"
        using Suc True by simp
      show ?thesis
        using Cons.IH [OF j par] True k' by (simp add: idx Suc)
    next
      case False
      then have k0: "k mod 2 = 0" and k': "Suc k mod 2 = 1" by presburger+
      have idx: "i + (i + k mod 2) div 2 = Suc (j + (j + 1) div 2)"
        using Suc k0 by simp
      show ?thesis
        using Cons.IH [OF j par] k0 k' by (simp add: idx Suc)
    qed
  qed
qed

lemma sorry_shaped: "format_for_tts L (cps ''I'm sorry'') = Inr (cps ''I'm sorry'' @ [ELLIPSIS])"
  by (simp add: eval_shape eval_tone eval_str)

text \<open>
  What the loop of the sympathetic and the bummed branch builds. The lines are the
  sentences in their order, one per line: sentence \<open>i\<close> stands at position
  \<open>i + i div 2\<close>, with three periods appended when its lowercased form contains one of
  the six marker words and it does not already end in three periods, and an empty line
  follows every sentence of odd index and no other. A single sentence gives a single line
  and no empty line; the input \<open>I'm sorry\<close>, one sentence with one marker word, comes
  out with the ellipsis.
\<close>

theorem sympathetic_assembly:
  "(tone = TONE_SYMPATHETIC \<or> tone = TONE_BUMMED \<longrightarrow>
      shape_lines L tone sentences = Inr (sympathetic_lines L 0 sentences)) \<and>
   length (sympathetic_lines L 0 sentences) = length sentences + length sentences div 2 \<and>
   (\<forall>i<length sentences.
      sympathetic_lines L 0 sentences ! (i + i div 2) = add_ellipsis L (sentences ! i) \<and>
      (odd i \<longrightarrow> sympathetic_lines L 0 sentences ! (i + i div 2 + 1) = [])) \<and>
   add_ellipsis L s =
     (if (\<exists>w\<in>set loaded_words. sublist w (lower L s)) \<and> \<not> suffix (cps ''...'') s
      then s @ cps ''...'' else s) \<and>
   sympathetic_lines L 0 [s] = [add_ellipsis L s] \<and>
   format_for_tts L (cps ''I'm sorry'') = Inr (cps ''I'm sorry'' @ [ELLIPSIS])"
proof -
  have "tone = TONE_SYMPATHETIC \<or> tone = TONE_BUMMED \<longrightarrow>
      shape_lines L tone sentences = Inr (sympathetic_lines L 0 sentences)"
    by (auto simp: shape_lines_def)
  moreover have "length (sympathetic_lines L 0 sentences)
      = length sentences + length sentences div 2"
    using sympathetic_lines_length [of L 0 sentences] by simp
  moreover have "\<forall>i<length sentences.
      sympathetic_lines L 0 sentences ! (i + i div 2) = add_ellipsis L (sentences ! i) \<and>
      (odd i \<longrightarrow> sympathetic_lines L 0 sentences ! (i + i div 2 + 1) = [])"
    using sympathetic_lines_nth [of _ sentences L 0]
      sympathetic_lines_blank [of _ sentences 0 L] by simp
  moreover have "add_ellipsis L s =
     (if (\<exists>w\<in>set loaded_words. sublist w (lower L s)) \<and> \<not> suffix (cps ''...'') s
      then s @ cps ''...'' else s)"
    by (simp add: add_ellipsis_def any_in_iff endswith_def)
  moreover have "sympathetic_lines L 0 [s] = [add_ellipsis L s]"
    by simp
  ultimately show ?thesis
    using sorry_shaped by blast
qed

theorem sympathetic_assembly_witness:
  "sympathetic_lines uncased 0 [cps ''That sucks.'', cps ''So sorry.'', cps ''Hm.''] ! 1
     = cps ''So sorry....'' \<and>
   sympathetic_lines uncased 0 [cps ''That sucks.'', cps ''So sorry.'', cps ''Hm.''] ! 2 = [] \<and>
   shape_lines uncased TONE_BUMMED [cps ''That sucks.'', cps ''So sorry.'', cps ''Hm.'']
     = Inr [cps ''That sucks.'', cps ''So sorry....'', [], cps ''Hm.'']"
  using sympathetic_assembly [of TONE_BUMMED uncased
      "[cps ''That sucks.'', cps ''So sorry.'', cps ''Hm.'']" "[]"]
  by (simp add: add_ellipsis_def loaded_words_def eval_str uncased_def)

section \<open>Sentences and the pieces of the text\<close>

lemma is_delim_iff: "is_delim c \<longleftrightarrow> c = 46 \<or> c = 63 \<or> c = 33"
  by (auto simp: is_delim_def cps_def)

lemma delim_not_space: "is_delim c \<Longrightarrow> \<not> is_space c"
  by (auto simp: is_delim_iff is_space_def)

lemma delim_part: "is_delim c \<Longrightarrow> sublist [c] (cps ''.?!'')"
  by (auto simp: is_delim_iff cps_def sublist_code)

lemma piece_not_part:
  assumes "piece \<noteq> []" and "\<forall>x\<in>set piece. \<not> is_delim x"
  shows "\<not> sublist piece (cps ''.?!'')"
proof
  assume "sublist piece (cps ''.?!'')"
  then have "set piece \<subseteq> set (cps ''.?!'')"
    by (rule set_mono_sublist)
  moreover have "hd piece \<in> set piece" using assms(1) by simp
  ultimately have "is_delim (hd piece)" by (auto simp: is_delim_def)
  with assms show False by simp
qed

lemma split_loop_piece:
  assumes "\<forall>x\<in>set piece. \<not> is_delim x"
  shows "split_loop (piece # parts) current sentences
     = split_loop parts (current @ piece) sentences"
proof (cases "piece = []")
  case True
  then show ?thesis by simp
next
  case False
  from False assms have "\<not> sublist piece (cps ''.?!'')" by (rule piece_not_part)
  with False show ?thesis by simp
qed

lemma split_loop_delim:
  assumes "is_delim c"
  shows "split_loop ([c] # parts) current sentences
     = split_loop parts [] (sentences @ [strip (current @ [c])])"
  using delim_part [OF assms] by simp

lemma split_loop_chunks:
  assumes "\<forall>x\<in>set piece. \<not> is_delim x"
  shows "split_loop (re_split_from piece s) current sentences
     = (trailing_from (current @ piece) s,
        sentences @ map strip (chunks_from (current @ piece) s))"
  using assms
proof (induction s arbitrary: piece current sentences)
  case Nil
  then show ?case by (simp add: split_loop_piece del: split_loop.simps(2))
next
  case (Cons c cs)
  show ?case
  proof (cases "is_delim c")
    case True
    have "split_loop (re_split_from piece (c # cs)) current sentences
        = split_loop (re_split_from [] cs) [] (sentences @ [strip ((current @ piece) @ [c])])"
      using True Cons.prems
      by (simp add: split_loop_piece split_loop_delim del: split_loop.simps(2))
    also have "\<dots> = (trailing_from [] cs,
        (sentences @ [strip ((current @ piece) @ [c])]) @ map strip (chunks_from [] cs))"
      using Cons.IH [of "[]" "[]"] by simp
    finally show ?thesis using True by simp
  next
    case False
    with Cons.prems have "\<forall>x\<in>set (piece @ [c]). \<not> is_delim x" by simp
    from Cons.IH [OF this, of current sentences] False show ?thesis by simp
  qed
qed

lemma split_sentences_chunks:
  "split_sentences s =
     (let sentences = map strip (chunks s) @
            (if strip (trailing s) \<noteq> [] then [strip (trailing s)] else [])
      in if sentences = [] then [strip s] else sentences)"
  using split_loop_chunks [of "[]" s "[]" "[]"]
  by (simp add: split_sentences_def re_split_def chunks_def trailing_def Let_def)

lemma chunks_from_concat: "concat (chunks_from piece s) @ trailing_from piece s = piece @ s"
  by (induction s arbitrary: piece) simp_all

lemma chunks_from_shape:
  assumes "\<forall>x\<in>set piece. \<not> is_delim x"
  shows "\<forall>c\<in>set (chunks_from piece s).
           c \<noteq> [] \<and> is_delim (last c) \<and> (\<forall>x\<in>set (butlast c). \<not> is_delim x)"
  using assms
proof (induction s arbitrary: piece)
  case Nil
  show ?case by simp
next
  case (Cons c cs)
  show ?case
  proof (cases "is_delim c")
    case True
    with Cons.prems Cons.IH [of "[]"] show ?thesis by simp
  next
    case False
    with Cons.prems have "\<forall>x\<in>set (piece @ [c]). \<not> is_delim x" by simp
    from Cons.IH [OF this] False show ?thesis by simp
  qed
qed

lemma trailing_from_shape:
  assumes "\<forall>x\<in>set piece. \<not> is_delim x"
  shows "\<forall>x\<in>set (trailing_from piece s). \<not> is_delim x"
  using assms
proof (induction s arbitrary: piece)
  case Nil
  then show ?case by simp
next
  case (Cons c cs)
  show ?case
  proof (cases "is_delim c")
    case True
    with Cons.IH [of "[]"] show ?thesis by simp
  next
    case False
    with Cons.prems have "\<forall>x\<in>set (piece @ [c]). \<not> is_delim x" by simp
    from Cons.IH [OF this] False show ?thesis by simp
  qed
qed

lemma rstrip_id: "s \<noteq> [] \<Longrightarrow> \<not> is_space (last s) \<Longrightarrow> rstrip s = s"
  by (cases s rule: rev_cases) (simp_all add: rstrip_def)

lemma lstrip_last:
  assumes "s \<noteq> []" and "\<not> is_space (last s)"
  shows "lstrip s \<noteq> [] \<and> last (lstrip s) = last s"
proof -
  have ne: "dropWhile is_space s \<noteq> []"
    using assms by (auto simp: dropWhile_eq_Nil_conv)
  have "s = takeWhile is_space s @ dropWhile is_space s" by simp
  then have "last s = last (dropWhile is_space s)"
    using ne by (metis last_appendR)
  with ne show ?thesis by (simp add: lstrip_def)
qed

lemma strip_keeps_last:
  assumes "s \<noteq> []" and "\<not> is_space (last s)"
  shows "strip s = lstrip s \<and> strip s \<noteq> [] \<and> last (strip s) = last s"
proof -
  from lstrip_last [OF assms] have ne: "lstrip s \<noteq> []" and l: "last (lstrip s) = last s"
    by simp_all
  from ne l assms(2) have "rstrip (lstrip s) = lstrip s"
    by (simp add: rstrip_id)
  with ne l show ?thesis by (simp add: strip_def)
qed


lemma rstrip_last_not_space: "rstrip s \<noteq> [] \<Longrightarrow> \<not> is_space (last (rstrip s))"
proof -
  assume ne: "rstrip s \<noteq> []"
  then have d: "dropWhile is_space (rev s) \<noteq> []"
    by (simp add: rstrip_def del: dropWhile_eq_Nil_conv)
  then have "\<not> is_space (hd (dropWhile is_space (rev s)))"
    by (rule hd_dropWhile)
  moreover have "last (rstrip s) = hd (dropWhile is_space (rev s))"
    using d by (simp add: rstrip_def last_rev del: dropWhile_eq_Nil_conv)
  ultimately show ?thesis by simp
qed

lemma strip_last_not_space: "strip s \<noteq> [] \<Longrightarrow> \<not> is_space (last (strip s))"
  unfolding strip_def by (rule rstrip_last_not_space)

lemma chunk_sentence:
  assumes "c \<noteq> []" and "is_delim (last c)"
  shows "strip c \<noteq> [] \<and> last (strip c) = last c"
  using strip_keeps_last [OF assms(1) delim_not_space [OF assms(2)]] by blast

lemma trailing_sentence:
  assumes "strip s = s" and "trailing s \<noteq> []"
  shows "strip (trailing s) \<noteq> []"
proof -
  have "concat (chunks s) @ trailing s = s"
    using chunks_from_concat [of "[]" s] by (simp add: chunks_def trailing_def)
  with assms(2) have l: "last s = last (trailing s)" and ne: "s \<noteq> []"
    by (metis last_appendR, metis append_is_Nil_conv)
  from ne assms(1) have "\<not> is_space (last s)"
    using strip_last_not_space [of s] by simp
  with l have "\<not> is_space (last (trailing s))" by simp
  from strip_keeps_last [OF assms(2) this] show ?thesis by blast
qed

lemma split_sentences_nonblank:
  assumes "strip s \<noteq> []"
  shows "split_sentences s = map strip (chunks s) @
            (if strip (trailing s) \<noteq> [] then [strip (trailing s)] else [])"
proof (cases "chunks s = [] \<and> strip (trailing s) = []")
  case True
  have "concat (chunks s) @ trailing s = s"
    using chunks_from_concat [of "[]" s] by (simp add: chunks_def trailing_def)
  with True have "trailing s = s" by simp
  with True assms show ?thesis by simp
next
  case False
  then show ?thesis by (auto simp: split_sentences_chunks Let_def)
qed

lemma first_sentence_plain:
  assumes "hd (split_sentences (strip text)) = s" and "s \<noteq> []" and "\<not> is_delim (last s)"
  shows "strip text = s"
proof (cases "strip text = []")
  case True
  have "split_sentences [] = [[]]"
    by (simp add: split_sentences_def re_split_def strip_def lstrip_def rstrip_def)
  with True assms(1,2) show ?thesis by simp
next
  case False
  let ?t = "strip text"
  have st: "strip ?t = ?t" by (rule strip_strip)
  then have eq: "split_sentences ?t = map strip (chunks ?t) @
            (if strip (trailing ?t) \<noteq> [] then [strip (trailing ?t)] else [])"
    using False by (simp add: split_sentences_nonblank)
  have cat: "concat (chunks ?t) @ trailing ?t = ?t"
    using chunks_from_concat [of "[]" ?t] by (simp add: chunks_def trailing_def)
  have "chunks ?t = []"
  proof (rule ccontr)
    assume ne: "chunks ?t \<noteq> []"
    let ?c = "hd (chunks ?t)"
    have "?c \<in> set (chunks ?t)" using ne by simp
    then have c: "?c \<noteq> []" "is_delim (last ?c)"
      using chunks_from_shape [of "[]" ?t] by (simp_all add: chunks_def)
    from chunk_sentence [OF c] have "last (strip ?c) = last ?c" by simp
    moreover have "hd (split_sentences ?t) = strip ?c"
      using eq ne by (simp add: hd_map)
    ultimately have "last s = last ?c" using assms(1) by metis
    with assms(3) c(2) show False by simp
  qed
  then have c0: "chunks ?t = []" .
  have tr: "trailing ?t = ?t" using cat by (simp only: c0 concat.simps append_Nil)
  have "split_sentences ?t = [?t]"
    by (simp only: eq c0 tr st False list.map append_Nil not_False_eq_True if_True)
  with assms(1) show ?thesis by simp
qed

section \<open>The two steps of the normalisation\<close>

lemma dot_not_space: "\<not> is_space 46"
  by (simp add: is_space_def)

lemma space_before_dot_Cons:
  "space_before_dot (c # r) \<longleftrightarrow> (is_space c \<and> r \<noteq> [] \<and> hd r = 46) \<or> space_before_dot r"
  by (cases r) auto

lemma sub_space_dot_keep:
  assumes "dropWhile is_space cs = [] \<or> hd (dropWhile is_space cs) \<noteq> 46"
  shows "sub_space_dot (c # cs) = c # sub_space_dot cs"
  using assms by (cases "dropWhile is_space cs") (auto simp del: dropWhile_eq_Nil_conv)

lemma sub_space_dot_hd:
  assumes "dropWhile is_space cs = [] \<or> hd (dropWhile is_space cs) \<noteq> 46"
  shows "sub_space_dot cs = [] \<or> hd (sub_space_dot cs) \<noteq> 46"
proof (cases cs)
  case Nil
  then show ?thesis by simp
next
  case (Cons c' cs')
  show ?thesis
  proof (cases "is_space c'")
    case True
    with assms Cons have "dropWhile is_space cs' = [] \<or> hd (dropWhile is_space cs') \<noteq> 46"
      by simp
    then have "sub_space_dot (c' # cs') = c' # sub_space_dot cs'"
      by (rule sub_space_dot_keep)
    moreover have "c' \<noteq> 46" using True dot_not_space by auto
    ultimately show ?thesis using Cons by simp
  next
    case False
    with assms Cons have "c' \<noteq> 46" by simp
    with False Cons show ?thesis by simp
  qed
qed

lemma sub_space_dot_clean: "\<not> space_before_dot (sub_space_dot s)"
proof (induction s rule: sub_space_dot.induct)
  case 1
  show ?case by simp
next
  case (2 c cs)
  show ?case
  proof (cases "is_space c")
    case False
    with 2 show ?thesis by (simp add: space_before_dot_Cons)
  next
    case True
    show ?thesis
    proof (cases "dropWhile is_space cs")
      case Nil
      then have "sub_space_dot cs = [] \<or> hd (sub_space_dot cs) \<noteq> 46"
        by (intro sub_space_dot_hd) simp
      with 2(1) [OF True Nil] True Nil show ?thesis
        by (auto simp add: space_before_dot_Cons simp del: dropWhile_eq_Nil_conv)
    next
      case (Cons d ds)
      show ?thesis
      proof (cases "d = 46")
        case dot: True
        with 2(2) [OF True Cons] True Cons show ?thesis
          by (simp add: space_before_dot_Cons dot_not_space)
      next
        case nodot: False
        then have "sub_space_dot cs = [] \<or> hd (sub_space_dot cs) \<noteq> 46"
          using Cons by (intro sub_space_dot_hd) simp
        with 2(3) [OF True Cons nodot] True Cons nodot show ?thesis
          by (auto simp add: space_before_dot_Cons)
      qed
    qed
  qed
qed

lemma replace_dots_keep: "x \<noteq> 46 \<Longrightarrow> replace_dots (x # r) = x # replace_dots r"
proof (cases r)
  case Nil
  then show ?thesis by simp
next
  case (Cons y ys)
  assume "x \<noteq> 46"
  then show ?thesis using Cons by (cases ys) simp_all
qed















section \<open>Segmentation\<close>

text \<open>
  C8. \<open>split_sentences\<close> cuts the text after every delimiter. The pieces, in their
  order, make up the text again; every terminated piece ends in its delimiter and has no
  other, and the rest after the last delimiter has none. The sentences are these pieces in
  the same order, each trimmed of surrounding whitespace, which keeps the delimiter at the
  end, and then the trimmed rest if it is not empty; on a trimmed text a rest that is not
  empty always is a sentence. If there is no sentence at all, the result is the one-element
  list of the trimmed text, which happens only for a text that trims to the empty string.
\<close>

theorem segmentation:
  "concat (chunks s) @ trailing s = s \<and>
   (\<forall>c\<in>set (chunks s).
      c \<noteq> [] \<and> is_delim (last c) \<and> (\<forall>x\<in>set (butlast c). \<not> is_delim x) \<and>
      strip c \<noteq> [] \<and> last (strip c) = last c) \<and>
   (\<forall>x\<in>set (trailing s). \<not> is_delim x) \<and>
   split_sentences s =
     (let sentences = map strip (chunks s) @
            (if strip (trailing s) \<noteq> [] then [strip (trailing s)] else [])
      in if sentences = [] then [strip s] else sentences) \<and>
   (strip s \<noteq> [] \<longrightarrow>
      split_sentences s = map strip (chunks s) @
            (if strip (trailing s) \<noteq> [] then [strip (trailing s)] else [])) \<and>
   (strip s = s \<and> trailing s \<noteq> [] \<longrightarrow> strip (trailing s) \<noteq> [])"
proof -
  have "concat (chunks s) @ trailing s = s"
    using chunks_from_concat [of "[]" s] by (simp add: chunks_def trailing_def)
  moreover have "\<forall>c\<in>set (chunks s).
      c \<noteq> [] \<and> is_delim (last c) \<and> (\<forall>x\<in>set (butlast c). \<not> is_delim x) \<and>
      strip c \<noteq> [] \<and> last (strip c) = last c"
    using chunks_from_shape [of "[]" s] chunk_sentence by (auto simp: chunks_def)
  moreover have "\<forall>x\<in>set (trailing s). \<not> is_delim x"
    using trailing_from_shape [of "[]" s] by (simp add: trailing_def)
  ultimately show ?thesis
    using split_sentences_chunks [of s] split_sentences_nonblank [of s] trailing_sentence [of s]
    by blast
qed

theorem segmentation_witness:
  "chunks (cps ''Hi there.  How are you?! ok'')
     = [cps ''Hi there.'', cps ''  How are you?'', cps ''!''] \<and>
   trailing (cps ''Hi there.  How are you?! ok'') = cps '' ok'' \<and>
   split_sentences (cps ''Hi there.  How are you?! ok'')
     = [cps ''Hi there.'', cps ''How are you?'', cps ''!'', cps ''ok'']"
  using segmentation [of "cps ''Hi there.  How are you?! ok''"]
  by (simp add: chunks_def trailing_def is_delim_def eval_str)

section \<open>The softened name\<close>

lemma soften_from_Suc: "soften_from (Suc k) ss = ss"
  by (induction ss arbitrary: k) simp_all

lemma soften_sympathetic: "soften_existing_name (s # ss) TONE_SYMPATHETIC = soften_first s # ss"
  by (simp add: soften_existing_name_def soften_from_Suc)

lemma match_name_Some:
  assumes "match_name s = Some g"
  shows "starts_with_name s"
proof (cases s)
  case Nil
  then show ?thesis using assms by (simp add: match_name_def)
next
  case (Cons c cs)
  let ?r1 = "dropWhile is_lower_az cs"
  from assms Cons have u: "is_upper_AZ c" and l: "takeWhile is_lower_az cs \<noteq> []"
    and sp: "takeWhile is_sep ?r1 \<noteq> []"
    by (auto simp: match_name_def Let_def split: if_splits)
  from sp obtain d ds where r1: "?r1 = d # ds"
    by (cases ?r1) auto
  with sp have "is_sep d"
    by (auto split: if_splits)
  with u l r1 Cons show ?thesis
    by (simp add: starts_with_name_def)
qed

lemma soften_first_other: "\<not> starts_with_name s \<Longrightarrow> soften_first s = s"
  using match_name_Some [of s] by (cases "match_name s") (auto simp: soften_first_def)

lemma takeWhile_run:
  "\<forall>x\<in>set xs. P x \<Longrightarrow> ys = [] \<or> \<not> P (hd ys) \<Longrightarrow> takeWhile P (xs @ ys) = xs"
  by (cases ys) (simp_all add: takeWhile_append2)

lemma dropWhile_run:
  "\<forall>x\<in>set xs. P x \<Longrightarrow> ys = [] \<or> \<not> P (hd ys) \<Longrightarrow> dropWhile P (xs @ ys) = ys"
  by (cases ys) (simp_all add: dropWhile_append2)

lemma sep_not_lower: "is_sep d \<Longrightarrow> \<not> is_lower_az d"
  by (auto simp: is_sep_def is_lower_az_def cps_def)

lemma match_name_shape:
  assumes "is_upper_AZ c" and "letters \<noteq> []" and "length letters \<le> 20"
    and "\<forall>x\<in>set letters. is_lower_az x" and "sep \<noteq> []" and "\<forall>x\<in>set sep. is_sep x"
    and "rest = [] \<or> \<not> is_sep (hd rest)" and "10 \<notin> set rest"
  shows "match_name (c # letters @ sep @ rest) = Some (c # letters, sep, rest)"
proof -
  have nl: "sep @ rest = [] \<or> \<not> is_lower_az (hd (sep @ rest))"
    using assms(5,6) sep_not_lower by (cases sep) auto
  have t1: "takeWhile is_lower_az (letters @ sep @ rest) = letters"
    by (rule takeWhile_run [OF assms(4) nl])
  have d1: "dropWhile is_lower_az (letters @ sep @ rest) = sep @ rest"
    by (rule dropWhile_run [OF assms(4) nl])
  have t2: "takeWhile is_sep (sep @ rest) = sep"
    by (rule takeWhile_run [OF assms(6,7)])
  have d2: "dropWhile is_sep (sep @ rest) = rest"
    by (rule dropWhile_run [OF assms(6,7)])
  have t3: "takeWhile (\<lambda>x. x \<noteq> 10) rest = rest" and d3: "dropWhile (\<lambda>x. x \<noteq> 10) rest = []"
    using assms(8) by (auto simp: takeWhile_eq_all_conv)
  show ?thesis
    using assms(1,2,3,5) by (simp add: match_name_def t1 d1 t2 d2 t3 d3)
qed

lemma john_shaped:
  "format_for_tts L (cps ''John, that sounds really hard'') =
   Inr (cps ''John'' @ ELLIPSIS # cps '' that sounds really hard'' @ [ELLIPSIS])"
  by (simp add: eval_shape eval_tone eval_str)

text \<open>
  C7. An input whose first sentence is \<open>John, that sounds really hard\<close> is shaped
  into \<open>John\<dots> that sounds really hard\<dots>\<close>, with the ellipsis character in both
  places. The pass rewrites the first sentence only, and only for the sympathetic tone;
  it leaves a first sentence alone that does not start with a capitalised word followed by
  a separator; and where the first sentence is such a word, separators and a rest on one
  line, it puts three periods after the word, and a space when a rest follows.
\<close>

theorem name_softening:
  "(hd (split_sentences (strip text)) = cps ''John, that sounds really hard'' \<longrightarrow>
      format_for_tts L text =
        Inr (cps ''John'' @ ELLIPSIS # cps '' that sounds really hard'' @ [ELLIPSIS])) \<and>
   soften_first (cps ''John, that sounds really hard'')
     = cps ''John... that sounds really hard'' \<and>
   soften_existing_name (s # ss) TONE_SYMPATHETIC = soften_first s # ss \<and>
   (tone \<noteq> TONE_SYMPATHETIC \<longrightarrow> soften_existing_name sentences tone = sentences) \<and>
   (\<not> starts_with_name s \<longrightarrow> soften_first s = s) \<and>
   (is_upper_AZ c \<and> letters \<noteq> [] \<and> length letters \<le> 20 \<and>
    (\<forall>x\<in>set letters. is_lower_az x) \<and> sep \<noteq> [] \<and> (\<forall>x\<in>set sep. is_sep x) \<and>
    (rest = [] \<or> \<not> is_sep (hd rest)) \<and> 10 \<notin> set rest \<longrightarrow>
    soften_first (c # letters @ sep @ rest) =
      (if lstrip rest \<noteq> [] then c # letters @ cps ''... '' @ lstrip rest
       else c # letters @ cps ''...''))"
proof -
  have "hd (split_sentences (strip text)) = cps ''John, that sounds really hard'' \<longrightarrow>
      format_for_tts L text =
        Inr (cps ''John'' @ ELLIPSIS # cps '' that sounds really hard'' @ [ELLIPSIS])"
  proof
    assume first: "hd (split_sentences (strip text)) = cps ''John, that sounds really hard''"
    have "cps ''John, that sounds really hard'' \<noteq> []"
      and "\<not> is_delim (last (cps ''John, that sounds really hard''))"
      by (simp_all add: cps_def is_delim_iff)
    with first have "strip text = cps ''John, that sounds really hard''"
      by (rule first_sentence_plain)
    then show "format_for_tts L text =
        Inr (cps ''John'' @ ELLIPSIS # cps '' that sounds really hard'' @ [ELLIPSIS])"
      using format_for_tts_strip [of L "text"] john_shaped [of L] by simp
  qed
  moreover have "soften_first (cps ''John, that sounds really hard'')
     = cps ''John... that sounds really hard''"
    by (simp add: soften_first_def match_name_def is_upper_AZ_def is_lower_az_def is_sep_def
        eval_str)
  moreover have "tone \<noteq> TONE_SYMPATHETIC \<longrightarrow> soften_existing_name sentences tone = sentences"
    by (simp add: soften_existing_name_def)
  moreover have "is_upper_AZ c \<and> letters \<noteq> [] \<and> length letters \<le> 20 \<and>
    (\<forall>x\<in>set letters. is_lower_az x) \<and> sep \<noteq> [] \<and> (\<forall>x\<in>set sep. is_sep x) \<and>
    (rest = [] \<or> \<not> is_sep (hd rest)) \<and> 10 \<notin> set rest \<longrightarrow>
    soften_first (c # letters @ sep @ rest) =
      (if lstrip rest \<noteq> [] then c # letters @ cps ''... '' @ lstrip rest
       else c # letters @ cps ''...'')"
    using match_name_shape [of c letters sep rest] by (simp add: soften_first_def)
  ultimately show ?thesis
    using soften_sympathetic soften_first_other by blast
qed

theorem name_softening_witness:
  "format_for_tts uncased (cps ''  John, that sounds really hard '') =
     Inr (cps ''John'' @ ELLIPSIS # cps '' that sounds really hard'' @ [ELLIPSIS]) \<and>
   soften_existing_name [cps ''Anna, hi.'', cps ''Bob, hi.''] TONE_BUMMED
     = [cps ''Anna, hi.'', cps ''Bob, hi.''] \<and>
   soften_first (cps ''I'm sorry'') = cps ''I'm sorry'' \<and>
   soften_first (cps ''Anna, hi.'') = cps ''Anna... hi.''"
proof -
  have a: "hd (split_sentences (strip (cps ''  John, that sounds really hard '')))
      = cps ''John, that sounds really hard''"
    by (simp add: split_sentences_def re_split_def is_delim_def eval_str)
  have b: "TONE_BUMMED \<noteq> TONE_SYMPATHETIC"
    by (simp add: tone_defs cps_def)
  have c: "\<not> starts_with_name (cps ''I'm sorry'')"
    by (simp add: starts_with_name_def is_upper_AZ_def is_lower_az_def cps_def)
  have d: "is_upper_AZ 65 \<and> cps ''nna'' \<noteq> [] \<and> length (cps ''nna'') \<le> 20 \<and>
    (\<forall>x\<in>set (cps ''nna''). is_lower_az x) \<and> cps '', '' \<noteq> [] \<and>
    (\<forall>x\<in>set (cps '', ''). is_sep x) \<and>
    (cps ''hi.'' = [] \<or> \<not> is_sep (hd (cps ''hi.''))) \<and> 10 \<notin> set (cps ''hi.'')"
    by (simp add: is_upper_AZ_def is_lower_az_def is_sep_def cps_def)
  have e: "65 # cps ''nna'' @ cps '', '' @ cps ''hi.'' = cps ''Anna, hi.''"
    and f: "(if lstrip (cps ''hi.'') \<noteq> [] then 65 # cps ''nna'' @ cps ''... '' @ lstrip (cps ''hi.'')
       else 65 # cps ''nna'' @ cps ''...'') = cps ''Anna... hi.''"
    by (simp_all add: eval_str)
  show ?thesis
    using name_softening [of "cps ''  John, that sounds really hard ''" uncased
        "cps ''I'm sorry''" "[]" TONE_BUMMED "[cps ''Anna, hi.'', cps ''Bob, hi.'']"
        65 "cps ''nna''" "cps '', ''" "cps ''hi.''"] a b c d
    unfolding e f by blast
qed

section \<open>Normalising twice\<close>




section \<open>How the shaped text ends\<close>

lemma replace_dots_keep2:
  "x \<noteq> 46 \<Longrightarrow> replace_dots (a # x # z) = a # x # replace_dots z"
  by (cases z) (simp_all add: replace_dots_keep)

lemma replace_dots_keep3:
  "x \<noteq> 46 \<Longrightarrow> replace_dots (a # b # x # z) = a # b # x # replace_dots z"
  by (simp add: replace_dots_keep2)

lemma replace_dots_split:
  "x \<noteq> 46 \<Longrightarrow> replace_dots (y @ x # z) = replace_dots y @ x # replace_dots z"
proof (induction y rule: replace_dots.induct)
  case (1 a b c cs)
  then show ?case by simp
qed (simp_all add: replace_dots_keep replace_dots_keep2 replace_dots_keep3)

lemma replace_dots_append:
  "p = [] \<or> last p \<noteq> 46 \<Longrightarrow> replace_dots (p @ q) = replace_dots p @ replace_dots q"
proof (cases p rule: rev_cases)
  case Nil
  then show ?thesis by simp
next
  case (snoc ys x)
  assume "p = [] \<or> last p \<noteq> 46"
  with snoc have x: "x \<noteq> 46" by simp
  have "replace_dots (ys @ x # q) = replace_dots ys @ x # replace_dots q"
    by (rule replace_dots_split [OF x])
  moreover have "replace_dots (ys @ [x]) = replace_dots ys @ [x]"
    using replace_dots_split [OF x, of ys "[]"] by simp
  ultimately show ?thesis using snoc by simp
qed

lemma sub_space_dot_split:
  assumes "\<not> is_space x" and "x \<noteq> 46"
  shows "sub_space_dot (y @ x # z) = sub_space_dot y @ sub_space_dot (x # z)"
proof (induction y rule: sub_space_dot.induct)
  case 1
  show ?case by simp
next
  case (2 c cs)
  show ?case
  proof (cases "is_space c")
    case False
    with 2 show ?thesis by simp
  next
    case True
    show ?thesis
    proof (cases "dropWhile is_space cs")
      case Nil
      then have "dropWhile is_space (cs @ x # z) = x # z"
        using assms(1) by (simp add: dropWhile_append2)
      then have "sub_space_dot (c # cs @ x # z) = c # sub_space_dot (cs @ x # z)"
        using assms(2) by (intro sub_space_dot_keep) simp
      moreover have "sub_space_dot (c # cs) = c # sub_space_dot cs"
        using Nil by (intro sub_space_dot_keep) simp
      ultimately show ?thesis using 2(1) [OF True Nil] by simp
    next
      case (Cons d ds)
      then have "d \<in> set cs" and "\<not> is_space d"
        by (metis list.set_intros(1) set_dropWhileD, metis hd_dropWhile list.sel(1) list.distinct(1))
      then have dw: "dropWhile is_space (cs @ x # z) = d # ds @ x # z"
        using Cons by (simp add: dropWhile_append1)
      show ?thesis
      proof (cases "d = 46")
        case dot: True
        with True Cons dw 2(2) [OF True Cons dot] show ?thesis by simp
      next
        case nodot: False
        with True Cons dw 2(3) [OF True Cons nodot] show ?thesis by simp
      qed
    qed
  qed
qed

lemma ellipsis_plain: "\<not> is_space ELLIPSIS \<and> ELLIPSIS \<noteq> 46 \<and> ELLIPSIS \<noteq> 33"
  by (simp add: ELLIPSIS_def is_space_def)

lemma normalize_snoc:
  assumes "\<not> is_space x" and "x \<noteq> 46"
  shows "normalize (y @ [x]) = normalize y @ [x]"
  using replace_dots_split [OF assms(2), of y "[]"]
    sub_space_dot_split [OF assms, of "replace_dots y" "[]"] assms(1)
  by (simp add: normalize_def)

lemma normalize_three:
  assumes "v = [] \<or> last v \<noteq> 46"
  shows "normalize (v @ cps ''...'') = normalize v @ [ELLIPSIS]"
proof -
  have "replace_dots (v @ cps ''...'') = replace_dots v @ [ELLIPSIS]"
    using replace_dots_append [OF assms, of "cps ''...''"] by (simp add: cps_def)
  then show ?thesis
    using sub_space_dot_split [of ELLIPSIS "replace_dots v" "[]"] ellipsis_plain
    by (simp add: normalize_def)
qed

lemma normalize_four:
  assumes "v = [] \<or> last v \<noteq> 46"
  shows "normalize (v @ cps ''....'') = normalize v @ [ELLIPSIS, 46]"
proof -
  have "replace_dots (v @ cps ''....'') = replace_dots v @ [ELLIPSIS, 46]"
    using replace_dots_append [OF assms, of "cps ''....''"] by (simp add: cps_def)
  then show ?thesis
    using sub_space_dot_split [of ELLIPSIS "replace_dots v" "[46]"] ellipsis_plain
    by (simp add: normalize_def)
qed

lemma join_snoc: "join sep (b @ [s]) = (if b = [] then s else join sep b @ sep @ s)"
  by (induction sep b rule: join.induct) simp_all

lemma join_last:
  assumes "ls \<noteq> []"
  shows "\<exists>pre. join sep ls = pre @ last ls \<and> (pre = [] \<or> (\<exists>p. pre = p @ sep))"
proof (cases ls rule: rev_cases)
  case Nil
  with assms show ?thesis by simp
next
  case (snoc b s)
  show ?thesis
  proof (cases "b = []")
    case True
    with snoc show ?thesis by simp
  next
    case False
    then have "join sep ls = (join sep b @ sep) @ last ls"
      using snoc by (simp add: join_snoc)
    then show ?thesis by blast
  qed
qed

lemma buffer_loop_last:
  assumes "ss \<noteq> []"
  shows "\<exists>b ls. (case buffer_loop limit ss buffer shaped of
            (buffer', shaped') \<Rightarrow>
              if buffer' \<noteq> [] then shaped' @ [join (cps '' '') buffer'] else shaped')
           = ls @ [join (cps '' '') (b @ [last ss])]"
  using assms
proof (induction ss arbitrary: buffer shaped)
  case Nil
  then show ?case by simp
next
  case (Cons s ss)
  show ?case
  proof (cases "ss = []")
    case True
    then show ?thesis by (auto simp: Let_def)
  next
    case False
    show ?thesis
    proof (cases "limit < length (join (cps '' '') (buffer @ [s]))")
      case flush: True
      from Cons.IH [OF False, of "[]" "shaped @ [join (cps '' '') (buffer @ [s])]"]
      show ?thesis using flush False by (simp add: Let_def)
    next
      case keep: False
      from Cons.IH [OF False, of "buffer @ [s]" shaped]
      show ?thesis using keep False by (simp add: Let_def)
    qed
  qed
qed

lemma buffered_lines_last:
  assumes "ss \<noteq> []"
  shows "\<exists>b ls. buffered_lines limit ss = ls @ [join (cps '' '') (b @ [last ss])]"
  using buffer_loop_last [OF assms, of limit "[]" "[]"]
  by (simp add: buffered_lines_def Let_def split: prod.splits)

lemma cleanup_keeps_last:
  assumes "\<not> blank l"
  shows "\<exists>ls'. rev (dropWhile blank (rev (dropWhile blank (ls @ [l])))) = ls' @ [l]"
proof -
  have "\<exists>ls1. dropWhile blank (ls @ [l]) = ls1 @ [l]"
  proof (cases "\<forall>x\<in>set ls. blank x")
    case True
    then have "dropWhile blank (ls @ [l]) = [l]"
      using assms by (simp add: dropWhile_append2)
    then show ?thesis by simp
  next
    case False
    then obtain x where "x \<in> set ls" "\<not> blank x" by blast
    then have "dropWhile blank (ls @ [l]) = dropWhile blank ls @ [l]"
      by (rule dropWhile_append1)
    then show ?thesis by blast
  qed
  then obtain ls1 where "dropWhile blank (ls @ [l]) = ls1 @ [l]" by blast
  then show ?thesis using assms by simp
qed

lemma set_strip: "set (strip x) \<subseteq> set x"
proof -
  have "set (rev (dropWhile is_space (rev (dropWhile is_space x)))) \<subseteq> set (dropWhile is_space x)"
    using set_dropWhileD [of _ is_space "rev (dropWhile is_space x)"] by auto
  moreover have "set (dropWhile is_space x) \<subseteq> set x"
    using set_dropWhileD [of _ is_space x] by auto
  ultimately show ?thesis by (simp add: strip_def lstrip_def rstrip_def)
qed

lemma butlast_dropWhile:
  assumes "dropWhile P c \<noteq> []"
  shows "set (butlast (dropWhile P c)) \<subseteq> set (butlast c)"
proof -
  have "butlast (takeWhile P c @ dropWhile P c) = takeWhile P c @ butlast (dropWhile P c)"
    using assms by (simp only: butlast_append if_False)
  then have "butlast c = takeWhile P c @ butlast (dropWhile P c)"
    by (simp only: takeWhile_dropWhile_id)
  then show ?thesis by auto
qed

lemma last_concat: "xss \<noteq> [] \<Longrightarrow> last xss \<noteq> [] \<Longrightarrow> last (concat xss) = last (last xss)"
  by (cases xss rule: rev_cases) simp_all

lemma last_sentence:
  assumes "strip s = s" and "s \<noteq> []"
  shows "split_sentences s \<noteq> [] \<and> last (split_sentences s) \<noteq> [] \<and>
         last (last (split_sentences s)) = last s \<and>
         (\<forall>x\<in>set (butlast (last (split_sentences s))). \<not> is_delim x)"
proof -
  have cat: "concat (chunks s) @ trailing s = s"
    using chunks_from_concat [of "[]" s] by (simp add: chunks_def trailing_def)
  have nsp: "\<not> is_space (last s)"
    using assms strip_last_not_space [of s] by simp
  have eq: "split_sentences s = map strip (chunks s) @
            (if strip (trailing s) \<noteq> [] then [strip (trailing s)] else [])"
    using assms by (simp add: split_sentences_nonblank)
  show ?thesis
  proof (cases "trailing s = []")
    case False
    then have ne: "strip (trailing s) \<noteq> []"
      using assms(1) by (simp add: trailing_sentence)
    from cat False have "last s = last (trailing s)"
      by (metis last_appendR)
    with nsp have "\<not> is_space (last (trailing s))" by simp
    from strip_keeps_last [OF False this] \<open>last s = last (trailing s)\<close>
    have l: "last (strip (trailing s)) = last s" by metis
    have "\<forall>x\<in>set (trailing s). \<not> is_delim x"
      using trailing_from_shape [of "[]" s] by (simp add: trailing_def)
    then have "\<forall>x\<in>set (strip (trailing s)). \<not> is_delim x"
      using set_strip [of "trailing s"] by blast
    then have "\<forall>x\<in>set (butlast (strip (trailing s))). \<not> is_delim x"
      by (meson in_set_butlastD)
    with ne l eq show ?thesis by simp
  next
    case True
    then have st: "strip (trailing s) = []"
      by (simp add: strip_def lstrip_def rstrip_def)
    from cat True assms(2) have cne: "chunks s \<noteq> []" by auto
    let ?c = "last (chunks s)"
    have "?c \<in> set (chunks s)" using cne by simp
    then have c: "?c \<noteq> []" "is_delim (last ?c)" "\<forall>x\<in>set (butlast ?c). \<not> is_delim x"
      using chunks_from_shape [of "[]" s] by (simp_all add: chunks_def)
    from strip_keeps_last [OF c(1) delim_not_space [OF c(2)]]
    have sc: "strip ?c = lstrip ?c" "strip ?c \<noteq> []" "last (strip ?c) = last ?c"
      by blast+
    have "last s = last ?c"
      using cat True last_concat [OF cne c(1)] by simp
    moreover have "\<forall>x\<in>set (butlast (strip ?c)). \<not> is_delim x"
    proof -
      have "dropWhile is_space ?c \<noteq> []" using sc by (simp add: lstrip_def)
      from butlast_dropWhile [OF this] c(3) show ?thesis
        by (auto simp: sc(1) lstrip_def)
    qed
    moreover have "last (split_sentences s) = strip ?c"
      using eq st cne by (simp add: last_map)
    moreover have "split_sentences s \<noteq> []"
      using eq st cne by simp
    ultimately show ?thesis using sc by simp
  qed
qed

lemma no_three_dots:
  assumes "w = [] \<or> last w \<noteq> 46"
  shows "\<not> suffix (cps ''...'') (w @ [e])"
proof
  assume "suffix (cps ''...'') (w @ [e])"
  then obtain p where "w @ [e] = p @ [46, 46] @ [46]"
    by (auto simp: suffix_def cps_def)
  then have "w = p @ [46, 46]" by simp
  with assms show False by auto
qed

lemma suffix_one: "suffix [x] (w @ [e]) \<longleftrightarrow> x = e"
  using snoc_suffix_snoc [of "[]" x w e] by auto

lemma upbeat_tones:
  "TONE_SYMPATHETIC \<notin> {TONE_ENCOURAGING, TONE_HAPPY, TONE_REASSURING, TONE_PLAYFUL, TONE_EXCITED} \<and>
   TONE_BUMMED \<notin> {TONE_ENCOURAGING, TONE_HAPPY, TONE_REASSURING, TONE_PLAYFUL, TONE_EXCITED} \<and>
   TONE_HAPPY \<notin> {TONE_ENCOURAGING, TONE_REASSURING, TONE_PLAYFUL} \<and>
   TONE_EXCITED \<notin> {TONE_ENCOURAGING, TONE_REASSURING, TONE_PLAYFUL}"
  by (simp add: tone_defs cps_def)

lemma lift_line_soft:
  assumes "tone \<in> {TONE_ENCOURAGING, TONE_REASSURING, TONE_PLAYFUL}"
  shows "lift_line tone l =
     (if suffix (cps ''!'') l \<or> suffix [ELLIPSIS] l \<or> suffix (cps ''...'') l then l
      else l @ cps ''...'')"
  using assms by (auto simp: lift_line_def endswith_def)

lemma lift_line_bang:
  assumes "tone \<in> {TONE_HAPPY, TONE_EXCITED}"
  shows "lift_line tone l = (if suffix (cps ''!'') l then l else l @ cps ''!'')"
  using assms upbeat_tones by (auto simp: lift_line_def endswith_def)

lemma closing_lift_snoc: "closing_lift tone (ls @ [l]) = Inr (ls @ [lift_line tone l])"
  by (simp add: closing_lift_eq)

lemma last_line_shape:
  assumes "strip s = s" and "s \<noteq> []"
  shows "\<exists>ls w. buffered_lines limit (split_sentences s) = ls @ [w @ [last s]] \<and>
           (w = [] \<or> last w \<noteq> 46)"
proof -
  let ?sn = "last (split_sentences s)"
  from last_sentence [OF assms] have ss: "split_sentences s \<noteq> []" and sn: "?sn \<noteq> []"
    and l: "last ?sn = last s" and nd: "\<forall>x\<in>set (butlast ?sn). \<not> is_delim x"
    by simp_all
  from buffered_lines_last [OF ss, of limit] obtain b ls
    where bl: "buffered_lines limit (split_sentences s) = ls @ [join (cps '' '') (b @ [?sn])]"
    by blast
  have sn_eq: "?sn = butlast ?sn @ [last s]"
    using sn l by (metis append_butlast_last_id)
  define pre where "pre = (if b = [] then [] else join (cps '' '') b @ cps '' '')"
  have pre: "pre = [] \<or> last pre = 32"
    by (simp add: pre_def cps_def)
  have "join (cps '' '') (b @ [?sn]) = pre @ ?sn"
    by (simp add: join_snoc pre_def)
  also have "\<dots> = (pre @ butlast ?sn) @ [last s]"
    using sn_eq by (metis append_assoc)
  finally have j: "join (cps '' '') (b @ [?sn]) = (pre @ butlast ?sn) @ [last s]" .
  have "pre @ butlast ?sn = [] \<or> last (pre @ butlast ?sn) \<noteq> 46"
  proof (cases "butlast ?sn = []")
    case True
    with pre show ?thesis by auto
  next
    case False
    then have "last (butlast ?sn) \<in> set (butlast ?sn)" by simp
    with nd have "\<not> is_delim (last (butlast ?sn))" by blast
    then have "last (butlast ?sn) \<noteq> 46" by (auto simp: is_delim_iff)
    with False show ?thesis by simp
  qed
  with bl j show ?thesis by metis
qed

lemma lift_line_cases:
  "lift_line tone l = l \<or> lift_line tone l = l @ cps ''...'' \<or> lift_line tone l = l @ cps ''!''"
  by (simp add: lift_line_def)

lemma not_blank_last: "l \<noteq> [] \<Longrightarrow> \<not> is_space (last l) \<Longrightarrow> \<not> blank l"
  using strip_keeps_last [of l] by (auto simp: blank_def)

lemma lift_line_not_blank:
  assumes "\<not> is_space e"
  shows "\<not> blank (lift_line tone (w @ [e]))"
proof -
  have bang: "\<not> is_space 33" by (simp add: is_space_def)
  consider "lift_line tone (w @ [e]) = w @ [e]"
    | "lift_line tone (w @ [e]) = (w @ [e, 46, 46]) @ [46]"
    | "lift_line tone (w @ [e]) = (w @ [e]) @ [33]"
    using lift_line_cases [of tone "w @ [e]"] by (auto simp: cps_def)
  then show ?thesis
  proof cases
    case 1
    show ?thesis unfolding 1 by (rule not_blank_last) (simp_all add: assms)
  next
    case 2
    show ?thesis unfolding 2 by (rule not_blank_last) (simp_all add: dot_not_space)
  next
    case 3
    show ?thesis unfolding 3 by (rule not_blank_last) (simp_all add: bang)
  qed
qed

lemma upbeat_output:
  assumes "strip text \<noteq> []"
    and "detect_tone L (strip text)
          \<in> {TONE_ENCOURAGING, TONE_HAPPY, TONE_REASSURING, TONE_PLAYFUL, TONE_EXCITED}"
  shows "\<exists>w pre. format_for_tts L text =
            Inr (normalize (pre @ lift_line (detect_tone L (strip text)) (w @ [last (strip text)]))) \<and>
          (w = [] \<or> last w \<noteq> 46) \<and> (pre = [] \<or> last pre = 10)"
proof -
  let ?t = "strip text" and ?tone = "detect_tone L (strip text)"
  have nsp: "\<not> is_space (last ?t)"
    using assms(1) by (rule strip_last_not_space)
  from last_line_shape [OF strip_strip assms(1), of 80] obtain ls w
    where bl: "buffered_lines 80 (split_sentences ?t) = ls @ [w @ [last ?t]]"
      and w: "w = [] \<or> last w \<noteq> 46"
    by blast
  let ?lf = "lift_line ?tone (w @ [last ?t])"
  have tone: "?tone \<noteq> TONE_SYMPATHETIC" "?tone \<noteq> TONE_BUMMED"
    using assms(2) upbeat_tones by auto
  have soft: "soften_existing_name (split_sentences ?t) ?tone = split_sentences ?t"
    using tone by (simp add: soften_existing_name_def)
  have shape: "shape_lines L ?tone (split_sentences ?t) = Inr (ls @ [?lf])"
    using tone assms(2) by (auto simp: shape_lines_def bl closing_lift_snoc)
  have "\<not> blank ?lf" using nsp by (rule lift_line_not_blank)
  from cleanup_keeps_last [OF this, of ls] obtain ls'
    where cl: "rev (dropWhile blank (rev (dropWhile blank (ls @ [?lf])))) = ls' @ [?lf]"
    by blast
  from join_last [of "ls' @ [?lf]" "[10, 10]"] obtain pre
    where j: "join [10, 10] (ls' @ [?lf]) = pre @ ?lf" and pre: "pre = [] \<or> (\<exists>p. pre = p @ [10, 10])"
    by auto
  have "format_for_tts L text = Inr (normalize (pre @ ?lf))"
    by (simp only: format_for_tts_def Let_def soft shape sum.case cl j) (simp add: assms(1))
  moreover have "pre = [] \<or> last pre = 10"
    using pre by auto
  ultimately show ?thesis using w by blast
qed

lemma bang_output:
  assumes "strip text \<noteq> []" and "detect_tone L (strip text) \<in> {TONE_HAPPY, TONE_EXCITED}"
  shows "\<exists>out. format_for_tts L text = Inr (out @ cps ''!'')"
proof -
  let ?e = "last (strip text)" and ?tone = "detect_tone L (strip text)"
  from assms(2) have "?tone \<in> {TONE_ENCOURAGING, TONE_HAPPY, TONE_REASSURING, TONE_PLAYFUL,
      TONE_EXCITED}" by auto
  from upbeat_output [OF assms(1) this] obtain w pre
    where out: "format_for_tts L text = Inr (normalize (pre @ lift_line ?tone (w @ [?e])))"
    by blast
  have "\<exists>y. lift_line ?tone (w @ [?e]) = y @ [33]"
  proof (cases "?e = 33")
    case True
    then show ?thesis using assms(2) by (auto simp: lift_line_bang suffix_one cps_def)
  next
    case False
    then have "lift_line ?tone (w @ [?e]) = (w @ [?e]) @ [33]"
      using assms(2) by (auto simp: lift_line_bang suffix_one cps_def)
    then show ?thesis by blast
  qed
  then obtain y where "lift_line ?tone (w @ [?e]) = y @ [33]" by blast
  then have "normalize (pre @ lift_line ?tone (w @ [?e])) = normalize (pre @ y) @ [33]"
    using normalize_snoc [of 33 "pre @ y"] by (simp add: is_space_def)
  with out show ?thesis by (simp add: cps_def)
qed

lemma soft_output:
  assumes "strip text \<noteq> []"
    and "detect_tone L (strip text) \<in> {TONE_ENCOURAGING, TONE_REASSURING, TONE_PLAYFUL}"
  shows "\<exists>out. format_for_tts L text =
           Inr (out @ (if last (strip text) = 33 then cps ''!''
                       else if last (strip text) = 46 then [ELLIPSIS, 46] else [ELLIPSIS]))"
proof -
  let ?e = "last (strip text)" and ?tone = "detect_tone L (strip text)"
  from assms(2) have "?tone \<in> {TONE_ENCOURAGING, TONE_HAPPY, TONE_REASSURING, TONE_PLAYFUL,
      TONE_EXCITED}" by auto
  from upbeat_output [OF assms(1) this] obtain w pre
    where out: "format_for_tts L text = Inr (normalize (pre @ lift_line ?tone (w @ [?e])))"
      and w: "w = [] \<or> last w \<noteq> 46" and pre: "pre = [] \<or> last pre = 10"
    by blast
  have lift: "lift_line ?tone (w @ [?e]) =
      (if ?e = 33 \<or> ?e = ELLIPSIS then w @ [?e] else (w @ [?e]) @ cps ''...'')"
    using assms(2) no_three_dots [OF w, of ?e]
    by (auto simp: lift_line_soft suffix_one cps_def)
  consider (bang) "?e = 33" | (ell) "?e = ELLIPSIS" | (dot) "?e = 46"
    | (other) "?e \<noteq> 33" "?e \<noteq> ELLIPSIS" "?e \<noteq> 46"
    by blast
  then show ?thesis
  proof cases
    case bang
    have "normalize (pre @ lift_line ?tone (w @ [?e])) = normalize (pre @ w) @ [33]"
      unfolding lift using bang normalize_snoc [of 33 "pre @ w"] by (simp add: is_space_def)
    with out bang show ?thesis by (simp add: cps_def)
  next
    case ell
    have "normalize (pre @ lift_line ?tone (w @ [?e])) = normalize (pre @ w) @ [ELLIPSIS]"
      unfolding lift using ell normalize_snoc [of ELLIPSIS "pre @ w"] ellipsis_plain by simp
    with out ell ellipsis_plain show ?thesis by simp
  next
    case dot
    have v: "pre @ w = [] \<or> last (pre @ w) \<noteq> 46"
    proof (cases "w = []")
      case True
      with pre show ?thesis by auto
    next
      case False
      with w show ?thesis by simp
    qed
    have "pre @ lift_line ?tone (w @ [?e]) = (pre @ w) @ cps ''....''"
      unfolding lift using dot ellipsis_plain by (simp add: cps_def)
    then have "normalize (pre @ lift_line ?tone (w @ [?e])) = normalize (pre @ w) @ [ELLIPSIS, 46]"
      using normalize_four [OF v] by simp
    with out dot show ?thesis by simp
  next
    case other
    have v: "pre @ w @ [?e] = [] \<or> last (pre @ w @ [?e]) \<noteq> 46"
      using other by simp
    have "pre @ lift_line ?tone (w @ [?e]) = (pre @ w @ [?e]) @ cps ''...''"
      unfolding lift using other by simp
    then have "normalize (pre @ lift_line ?tone (w @ [?e]))
        = normalize (pre @ w @ [?e]) @ [ELLIPSIS]"
      using normalize_three [OF v] by simp
    with out other show ?thesis by simp
  qed
qed

section \<open>The closing lift of the upbeat tones\<close>

text \<open>
  The input \<open>Keep going.\<close> has the encouraging tone. Its only line ends in a period, so
  three periods are appended; the first three of the four periods become the ellipsis
  character, and the output ends in a period.
\<close>

theorem closing_lift_counterexample:
  "detect_tone uncased (cps ''Keep going.'') = TONE_ENCOURAGING \<and>
   format_for_tts uncased (cps ''Keep going.'') = Inr (cps ''Keep going'' @ [ELLIPSIS, 46]) \<and>
   last (cps ''Keep going'' @ [ELLIPSIS, 46]) \<noteq> 33 \<and>
   last (cps ''Keep going'' @ [ELLIPSIS, 46]) \<noteq> ELLIPSIS"
  by (simp add: eval_shape eval_tone eval_str)

text \<open>
  C5, as amended. The closing step changes the last line only: for the encouraging, the
  reassuring and the playful tone it appends three periods unless the line ends in an
  exclamation mark, the ellipsis character or three periods, and for the happy and the
  excited tone an exclamation mark unless the line ends in one. For an input that is not
  only whitespace, the output of the happy and the excited tone ends in an exclamation
  mark; that of the other three tones ends in an exclamation mark when the trimmed input
  does, in the ellipsis character followed by a period when the trimmed input ends in a
  period, and in the ellipsis character otherwise.
\<close>

theorem closing_lift_last_line:
  "closing_lift tone (ls @ [l]) = Inr (ls @ [lift_line tone l]) \<and>
   (tone \<in> {TONE_ENCOURAGING, TONE_REASSURING, TONE_PLAYFUL} \<longrightarrow>
      lift_line tone l =
        (if suffix (cps ''!'') l \<or> suffix [ELLIPSIS] l \<or> suffix (cps ''...'') l then l
         else l @ cps ''...'')) \<and>
   (tone \<in> {TONE_HAPPY, TONE_EXCITED} \<longrightarrow>
      lift_line tone l = (if suffix (cps ''!'') l then l else l @ cps ''!'')) \<and>
   (strip text \<noteq> [] \<and> detect_tone L (strip text) \<in> {TONE_HAPPY, TONE_EXCITED} \<longrightarrow>
      (\<exists>out. format_for_tts L text = Inr (out @ cps ''!''))) \<and>
   (strip text \<noteq> [] \<and>
    detect_tone L (strip text) \<in> {TONE_ENCOURAGING, TONE_REASSURING, TONE_PLAYFUL} \<longrightarrow>
      (\<exists>out. format_for_tts L text =
           Inr (out @ (if last (strip text) = 33 then cps ''!''
                       else if last (strip text) = 46 then [ELLIPSIS, 46] else [ELLIPSIS]))))"
  using closing_lift_snoc [of tone ls l] lift_line_soft [of tone l] lift_line_bang [of tone l]
    bang_output [of "text" L] soft_output [of "text" L]
  by blast

theorem closing_lift_last_line_witness:
  "(\<exists>out. format_for_tts uncased (cps ''Congrats, well done'') = Inr (out @ cps ''!'')) \<and>
   (\<exists>out. format_for_tts uncased (cps '' Keep going. '') = Inr (out @ [ELLIPSIS, 46])) \<and>
   lift_line TONE_PLAYFUL (cps ''haha ok'') = cps ''haha ok...'' \<and>
   lift_line TONE_HAPPY (cps ''congrats'') = cps ''congrats!''"
proof -
  have a: "strip (cps ''Congrats, well done'') \<noteq> [] \<and>
      detect_tone uncased (strip (cps ''Congrats, well done'')) \<in> {TONE_HAPPY, TONE_EXCITED}"
    by (simp add: eval_tone eval_str)
  have b: "strip (cps '' Keep going. '') \<noteq> [] \<and>
      detect_tone uncased (strip (cps '' Keep going. ''))
        \<in> {TONE_ENCOURAGING, TONE_REASSURING, TONE_PLAYFUL}"
    by (simp add: eval_tone eval_str)
  have c: "last (strip (cps '' Keep going. '')) = 46"
    by (simp add: eval_str)
  have d: "TONE_PLAYFUL \<in> {TONE_ENCOURAGING, TONE_REASSURING, TONE_PLAYFUL}"
    and e: "TONE_HAPPY \<in> {TONE_HAPPY, TONE_EXCITED}"
    by simp_all
  have f: "(if suffix (cps ''!'') (cps ''haha ok'') \<or> suffix [ELLIPSIS] (cps ''haha ok'') \<or>
             suffix (cps ''...'') (cps ''haha ok'') then cps ''haha ok''
           else cps ''haha ok'' @ cps ''...'') = cps ''haha ok...''"
    and g: "(if suffix (cps ''!'') (cps ''congrats'') then cps ''congrats''
           else cps ''congrats'' @ cps ''!'') = cps ''congrats!''"
    by (simp_all add: eval_str)
  note happy = closing_lift_last_line [of TONE_HAPPY "[]" "cps ''congrats''"
      "cps ''Congrats, well done''" uncased]
  note playful = closing_lift_last_line [of TONE_PLAYFUL "[]" "cps ''haha ok''"
      "cps '' Keep going. ''" uncased]
  have 1: "\<exists>out. format_for_tts uncased (cps ''Congrats, well done'') = Inr (out @ cps ''!'')"
    using happy a by blast
  have "lift_line TONE_HAPPY (cps ''congrats'') =
      (if suffix (cps ''!'') (cps ''congrats'') then cps ''congrats''
       else cps ''congrats'' @ cps ''!'')"
    using happy e by blast
  then have 4: "lift_line TONE_HAPPY (cps ''congrats'') = cps ''congrats!''"
    by (simp only: g)
  have "\<exists>out. format_for_tts uncased (cps '' Keep going. '') =
      Inr (out @ (if last (strip (cps '' Keep going. '')) = 33 then cps ''!''
                  else if last (strip (cps '' Keep going. '')) = 46 then [ELLIPSIS, 46]
                  else [ELLIPSIS]))"
    using playful b by blast
  then have 2: "\<exists>out. format_for_tts uncased (cps '' Keep going. '') = Inr (out @ [ELLIPSIS, 46])"
    by (simp add: c)
  have "lift_line TONE_PLAYFUL (cps ''haha ok'') =
      (if suffix (cps ''!'') (cps ''haha ok'') \<or> suffix [ELLIPSIS] (cps ''haha ok'') \<or>
          suffix (cps ''...'') (cps ''haha ok'') then cps ''haha ok''
       else cps ''haha ok'' @ cps ''...'')"
    using playful d by blast
  then have 3: "lift_line TONE_PLAYFUL (cps ''haha ok'') = cps ''haha ok...''"
    by (simp only: f)
  from 1 2 3 4 show ?thesis by blast
qed

section \<open>An ellipsis that is already there\<close>

lemma sentence_delims:
  assumes "s \<in> set (split_sentences t)"
  shows "\<forall>x\<in>set (butlast s). \<not> is_delim x"
proof -
  have tr: "\<forall>x\<in>set (trailing t). \<not> is_delim x"
    using trailing_from_shape [of "[]" t] by (simp add: trailing_def)
  have cat: "concat (chunks t) @ trailing t = t"
    using chunks_from_concat [of "[]" t] by (simp add: chunks_def trailing_def)
  from assms consider (chunk) c where "c \<in> set (chunks t)" "s = strip c"
    | (rest) "s = strip (trailing t)"
    | (whole) "chunks t = []" "s = strip t"
    by (auto simp: split_sentences_chunks Let_def split: if_splits)
  then show ?thesis
  proof cases
    case chunk
    then have c: "c \<noteq> []" "is_delim (last c)" "\<forall>x\<in>set (butlast c). \<not> is_delim x"
      using chunks_from_shape [of "[]" t] by (simp_all add: chunks_def)
    from strip_keeps_last [OF c(1) delim_not_space [OF c(2)]]
    have sc: "strip c = lstrip c" "strip c \<noteq> []" by blast+
    then have "dropWhile is_space c \<noteq> []" by (simp add: lstrip_def)
    from butlast_dropWhile [OF this] c(3) show ?thesis
      by (auto simp: chunk(2) sc(1) lstrip_def)
  next
    case rest
    have "\<forall>x\<in>set s. \<not> is_delim x"
      using tr set_strip [of "trailing t"] rest by blast
    then show ?thesis by (meson in_set_butlastD)
  next
    case whole
    with cat have "trailing t = t" by simp
    with tr have "\<forall>x\<in>set s. \<not> is_delim x"
      using set_strip [of t] whole(2) by auto
    then show ?thesis by (meson in_set_butlastD)
  qed
qed

lemma sentence_no_three_dots: "list_all (\<lambda>s. \<not> endswith s (cps ''...'')) (split_sentences t)"
proof -
  have "\<not> suffix (cps ''...'') s" if "s \<in> set (split_sentences t)" for s
  proof
    assume "suffix (cps ''...'') s"
    then obtain p where "s = p @ [46, 46] @ [46]"
      by (auto simp: suffix_def cps_def)
    then have "butlast s = p @ [46, 46]"
      by (simp add: butlast_append)
    then have "46 \<in> set (butlast s)" by simp
    moreover have "is_delim 46" by (simp add: is_delim_iff)
    ultimately show False using sentence_delims [OF that] by blast
  qed
  then show ?thesis by (simp add: list_all_iff endswith_def)
qed

lemma sorry_glyph:
  "detect_tone uncased (cps ''I'm sorry'' @ [ELLIPSIS]) = TONE_SYMPATHETIC \<and>
   add_ellipsis uncased (cps ''I'm sorry'' @ [ELLIPSIS])
     = cps ''I'm sorry'' @ ELLIPSIS # cps ''...'' \<and>
   format_for_tts uncased (cps ''I'm sorry'' @ [ELLIPSIS])
     = Inr (cps ''I'm sorry'' @ [ELLIPSIS, ELLIPSIS])"
  by (simp add: eval_shape eval_tone eval_str)

lemma sucks_glyph:
  "detect_tone uncased (cps ''That sucks, I understand'' @ [ELLIPSIS]) = TONE_BUMMED \<and>
   format_for_tts uncased (cps ''That sucks, I understand'' @ [ELLIPSIS])
     = Inr (cps ''That sucks, I understand'' @ [ELLIPSIS, ELLIPSIS])"
  by (simp add: eval_shape eval_tone eval_str)

lemma playful_glyph:
  "detect_tone uncased (cps ''haha ok'' @ [ELLIPSIS]) = TONE_PLAYFUL \<and>
   lift_line TONE_PLAYFUL (cps ''haha ok'' @ [ELLIPSIS]) = cps ''haha ok'' @ [ELLIPSIS] \<and>
   format_for_tts uncased (cps ''haha ok'' @ [ELLIPSIS]) = Inr (cps ''haha ok'' @ [ELLIPSIS])"
  by (simp add: eval_shape eval_tone eval_str)

text \<open>
  C6. The branch tests for three periods only, and no sentence of the segmentation ends in
  three periods. A sentence with a marker word that already ends in the ellipsis
  character gets three more periods, and the output ends in two ellipsis characters: so
  for the sympathetic input \<open>I'm sorry\<dots>\<close> and for the bummed
  input \<open>That sucks, I understand\<dots>\<close>. The closing step of the upbeat branch tests for
  the ellipsis character as well and leaves \<open>haha ok\<dots>\<close> as it is.
\<close>

theorem ellipsis_glyph_doubled:
  "list_all (\<lambda>s. \<not> endswith s (cps ''...'')) (split_sentences t) \<and>
   detect_tone uncased (cps ''I'm sorry'' @ [ELLIPSIS]) = TONE_SYMPATHETIC \<and>
   add_ellipsis uncased (cps ''I'm sorry'' @ [ELLIPSIS])
     = cps ''I'm sorry'' @ ELLIPSIS # cps ''...'' \<and>
   format_for_tts uncased (cps ''I'm sorry'' @ [ELLIPSIS])
     = Inr (cps ''I'm sorry'' @ [ELLIPSIS, ELLIPSIS]) \<and>
   detect_tone uncased (cps ''That sucks, I understand'' @ [ELLIPSIS]) = TONE_BUMMED \<and>
   format_for_tts uncased (cps ''That sucks, I understand'' @ [ELLIPSIS])
     = Inr (cps ''That sucks, I understand'' @ [ELLIPSIS, ELLIPSIS]) \<and>
   detect_tone uncased (cps ''haha ok'' @ [ELLIPSIS]) = TONE_PLAYFUL \<and>
   lift_line TONE_PLAYFUL (cps ''haha ok'' @ [ELLIPSIS]) = cps ''haha ok'' @ [ELLIPSIS] \<and>
   format_for_tts uncased (cps ''haha ok'' @ [ELLIPSIS]) = Inr (cps ''haha ok'' @ [ELLIPSIS])"
  using sentence_no_three_dots sorry_glyph sucks_glyph playful_glyph by blast

section \<open>No whitespace before a period\<close>

lemma format_for_tts_cases:
  "format_for_tts L text = Inr [] \<or> (\<exists>out. format_for_tts L text = Inr (normalize out))"
proof (cases "strip text = []")
  case True
  then show ?thesis by (simp add: format_for_tts_def)
next
  case False
  obtain ls where
    "shape_lines L (detect_tone L (strip text))
       (soften_existing_name (split_sentences (strip text)) (detect_tone L (strip text)))
     = Inr ls"
    using shape_lines_total by blast
  with False show ?thesis by (auto simp: format_for_tts_def Let_def)
qed

lemma careful_shaped: "format_for_tts L (cps ''be careful..'') = Inr (cps ''be careful..'')"
  by (simp add: eval_shape eval_tone eval_str)

lemma careful_lines:
  "shape_lines L TONE_CAUTION (split_sentences (cps ''be careful..''))
     = Inr [cps ''be careful.'', [], cps ''.'', []]"
  by (simp add: eval_shape eval_str tone_defs)

text \<open>
  C10. In the output of \<open>format_for_tts\<close> no whitespace character, a line feed of a
  paragraph break included, stands right before a period. So a line that starts with a
  period is drawn up to the line before it: for \<open>be careful..\<close> the lines are
  \<open>be careful.\<close>, an empty line and \<open>.\<close>, and the output is \<open>be careful..\<close>.
\<close>

theorem no_space_before_period:
  "(\<exists>out. format_for_tts L text = Inr out \<and> \<not> space_before_dot out) \<and>
   shape_lines L TONE_CAUTION (split_sentences (cps ''be careful..''))
     = Inr [cps ''be careful.'', [], cps ''.'', []] \<and>
   format_for_tts L (cps ''be careful..'') = Inr (cps ''be careful..'')"
proof -
  have "\<exists>out. format_for_tts L text = Inr out \<and> \<not> space_before_dot out"
    using format_for_tts_cases [of L "text"] sub_space_dot_clean
    by (auto simp: normalize_def)
  then show ?thesis
    using careful_shaped careful_lines by blast
qed

end
